theory Spec2Isabelle
  imports Main
begin

section \<open>JavaScript strings\<close>

text \<open>
  A JavaScript string is a sequence of UTF-16 code units. A code unit is modelled by its
  numeric value; string literals of the source are written with \<open>js\<close>.
\<close>

type_synonym jstring = "nat list"

definition js :: "string \<Rightarrow> jstring" where
  "js s = map of_char s"

text \<open>
  The character class \<^verbatim>\<open>\s\<close> of a regular expression, which is also the set of code units
  removed by \<^verbatim>\<open>String.prototype.trim\<close> (WhiteSpace and LineTerminator of ECMAScript).
\<close>

definition is_space :: "nat \<Rightarrow> bool" where
  "is_space c \<longleftrightarrow>
     (9 \<le> c \<and> c \<le> 13) \<or> c = 32 \<or> c = 0xA0 \<or> c = 0x1680 \<or>
     (0x2000 \<le> c \<and> c \<le> 0x200A) \<or> c = 0x2028 \<or> c = 0x2029 \<or>
     c = 0x202F \<or> c = 0x205F \<or> c = 0x3000 \<or> c = 0xFEFF"

definition trimEnd :: "jstring \<Rightarrow> jstring" where
  "trimEnd s = rev (dropWhile is_space (rev s))"

definition trim :: "jstring \<Rightarrow> jstring" where
  "trim s = trimEnd (dropWhile is_space s)"

section \<open>Text normalizer: \<open>CsvUtils.cleanText\<close> and \<open>cleanAddressText\<close>\<close>

text \<open>The class of U+E000 to U+F8FF, the private use area, removed everywhere.\<close>

definition is_private_use :: "nat \<Rightarrow> bool" where
  "is_private_use c \<longleftrightarrow> 0xE000 \<le> c \<and> c \<le> 0xF8FF"

text \<open>
  The class of the pattern anchored at the start of the text: U+00B7, U+2022, the hyphen,
  white space, U+2023, U+25E6, U+2043, U+204C, U+204D, U+2219, U+25AA, U+25AB, U+25CF and
  U+25CB.
\<close>

definition is_leading_glyph :: "nat \<Rightarrow> bool" where
  "is_leading_glyph c \<longleftrightarrow>
     c = 0xB7 \<or> c = 0x2022 \<or> c = 45 \<or> is_space c \<or> c = 0x2023 \<or> c = 0x25E6 \<or>
     c = 0x2043 \<or> c = 0x204C \<or> c = 0x204D \<or> c = 0x2219 \<or> c = 0x25AA \<or>
     c = 0x25AB \<or> c = 0x25CF \<or> c = 0x25CB"

text \<open>The class of U+200B to U+200D and U+FEFF, the zero-width code points.\<close>

definition is_zero_width :: "nat \<Rightarrow> bool" where
  "is_zero_width c \<longleftrightarrow> (0x200B \<le> c \<and> c \<le> 0x200D) \<or> c = 0xFEFF"

text \<open>The class of U+00A0, U+2000 to U+200A, U+202F, U+205F and U+3000, replaced by U+0020.\<close>

definition is_exotic_space :: "nat \<Rightarrow> bool" where
  "is_exotic_space c \<longleftrightarrow>
     c = 0xA0 \<or> (0x2000 \<le> c \<and> c \<le> 0x200A) \<or> c = 0x202F \<or> c = 0x205F \<or> c = 0x3000"

text \<open>\<^verbatim>\<open>.replace(/\s+/g, ' ')\<close>: every maximal run of white space becomes one U+0020.\<close>

function collapse_ws :: "jstring \<Rightarrow> jstring" where
  "collapse_ws [] = []"
| "collapse_ws (c # cs) =
     (if is_space c then 32 # collapse_ws (dropWhile is_space cs) else c # collapse_ws cs)"
  by pat_completeness auto
termination
  by (relation "measure length") (auto simp: length_dropWhile_le less_Suc_eq_le)

text \<open>
  The chain of replacements shared by both normalizers, in the order of the source:
  private use area removed, leading glyphs removed (the pattern is anchored at the start
  of the text and is not global), zero-width code points removed, exotic spaces mapped to
  U+0020, runs of white space collapsed, and the result trimmed.
\<close>

definition cleanAddressText :: "jstring \<Rightarrow> jstring" where
  "cleanAddressText text =
     trim (collapse_ws (map (\<lambda>c. if is_exotic_space c then 32 else c)
       (filter (\<lambda>c. \<not> is_zero_width c)
         (dropWhile is_leading_glyph
           (filter (\<lambda>c. \<not> is_private_use c) text)))))"

text \<open>
  A text is compact when every white space in it is U+0020 and no two white spaces are
  adjacent; this is what collapsing leaves.
\<close>

fun compact :: "jstring \<Rightarrow> bool" where
  "compact [] = True"
| "compact [c] = (is_space c \<longrightarrow> c = 32)"
| "compact (a # b # cs) = ((is_space a \<longrightarrow> a = 32 \<and> \<not> is_space b) \<and> compact (b # cs))"

text \<open>\<open>CsvUtils.cleanText\<close> returns a falsy text (the empty string) as it is.\<close>

definition cleanText :: "jstring \<Rightarrow> jstring" where
  "cleanText text = (if text = [] then text else cleanAddressText text)"


section \<open>Regular expressions\<close>

text \<open>
  The fragment of ECMAScript regular expressions used by the validators and the parser:
  pattern characters, character classes, sequence, alternation, the quantifiers
  \<^verbatim>\<open>+\<close>, \<^verbatim>\<open>*\<close> and \<^verbatim>\<open>*?\<close> on a character class, and the assertions
  \<^verbatim>\<open>^\<close>, \<^verbatim>\<open>$\<close> (no multiline flag) and \<^verbatim>\<open>\b\<close>.
\<close>

datatype regex =
    Eps
  | Chr nat
  | Cls "nat \<Rightarrow> bool"
  | Seq regex regex
  | Alt regex regex
  | Many1 "nat \<Rightarrow> bool"
  | Many0 "nat \<Rightarrow> bool"
  | Lazy0 "nat \<Rightarrow> bool"
  | Bol
  | Eol
  | WordB

text \<open>
  A position in the input: the code unit before it (\<open>None\<close> at the start of the input)
  and the input that remains.
\<close>

type_synonym position = "nat option \<times> jstring"

text \<open>\<^verbatim>\<open>\d\<close>, \<^verbatim>\<open>[a-zA-Z]\<close>, \<^verbatim>\<open>[A-Z]\<close>, \<^verbatim>\<open>\w\<close> and \<^verbatim>\<open>.\<close> (no line terminator).\<close>

definition is_digit :: "nat \<Rightarrow> bool" where
  "is_digit c \<longleftrightarrow> 48 \<le> c \<and> c \<le> 57"

definition is_upper :: "nat \<Rightarrow> bool" where
  "is_upper c \<longleftrightarrow> 65 \<le> c \<and> c \<le> 90"

definition is_lower :: "nat \<Rightarrow> bool" where
  "is_lower c \<longleftrightarrow> 97 \<le> c \<and> c \<le> 122"

definition is_alpha :: "nat \<Rightarrow> bool" where
  "is_alpha c \<longleftrightarrow> is_lower c \<or> is_upper c"

definition is_word :: "nat \<Rightarrow> bool" where
  "is_word c \<longleftrightarrow> is_alpha c \<or> is_digit c \<or> c = 95"

definition is_dot :: "nat \<Rightarrow> bool" where
  "is_dot c \<longleftrightarrow> c \<noteq> 10 \<and> c \<noteq> 13 \<and> c \<noteq> 0x2028 \<and> c \<noteq> 0x2029"

text \<open>
  Canonicalize of ECMAScript for the flag \<^verbatim>\<open>i\<close> without the flag \<^verbatim>\<open>u\<close>. Every pattern
  character of the source is ASCII, and a code unit outside ASCII is never canonicalized
  to an ASCII one, so only the ASCII letters are folded here.
\<close>

definition canonicalize :: "nat \<Rightarrow> nat" where
  "canonicalize c = (if is_lower c then c - 32 else c)"

definition chr_eq :: "bool \<Rightarrow> nat \<Rightarrow> nat \<Rightarrow> bool" where
  "chr_eq ignoreCase c x = (if ignoreCase then canonicalize x = canonicalize c else x = c)"

text \<open>The ends of a greedy and of a lazy run of a class, in the order backtracking tries them.\<close>

fun many1 :: "(nat \<Rightarrow> bool) \<Rightarrow> jstring \<Rightarrow> position list" where
  "many1 P [] = []"
| "many1 P (x # xs) = (if P x then many1 P xs @ [(Some x, xs)] else [])"

fun lazy1 :: "(nat \<Rightarrow> bool) \<Rightarrow> jstring \<Rightarrow> position list" where
  "lazy1 P [] = []"
| "lazy1 P (x # xs) = (if P x then (Some x, xs) # lazy1 P xs else [])"

definition at_word_boundary :: "position \<Rightarrow> bool" where
  "at_word_boundary p =
     ((case fst p of None \<Rightarrow> False | Some c \<Rightarrow> is_word c) \<noteq>
      (case snd p of [] \<Rightarrow> False | x # xs \<Rightarrow> is_word x))"

text \<open>
  \<open>ends ic r p\<close>: the positions at which a match of \<open>r\<close> that starts at \<open>p\<close> can end, in
  the order in which the backtracking matcher of ECMAScript finds them. The classes used
  under the flag \<^verbatim>\<open>i\<close> (\<^verbatim>\<open>\d\<close> and \<^verbatim>\<open>.\<close>) are closed under Canonicalize.
\<close>

primrec ends :: "bool \<Rightarrow> regex \<Rightarrow> position \<Rightarrow> position list" where
  "ends ic Eps p = [p]"
| "ends ic (Chr c) p =
     (case snd p of [] \<Rightarrow> [] | x # xs \<Rightarrow> if chr_eq ic c x then [(Some x, xs)] else [])"
| "ends ic (Cls P) p =
     (case snd p of [] \<Rightarrow> [] | x # xs \<Rightarrow> if P x then [(Some x, xs)] else [])"
| "ends ic (Seq a b) p = concat (map (ends ic b) (ends ic a p))"
| "ends ic (Alt a b) p = ends ic a p @ ends ic b p"
| "ends ic (Many1 P) p = many1 P (snd p)"
| "ends ic (Many0 P) p = many1 P (snd p) @ [p]"
| "ends ic (Lazy0 P) p = p # lazy1 P (snd p)"
| "ends ic Bol p = (if fst p = None then [p] else [])"
| "ends ic Eol p = (if snd p = [] then [p] else [])"
| "ends ic WordB p = (if at_word_boundary p then [p] else [])"

text \<open>The code unit before the position that is reached from \<open>prev\<close> by reading \<open>before\<close>.\<close>

definition prev_of :: "nat option \<Rightarrow> jstring \<Rightarrow> nat option" where
  "prev_of prev before = (if before = [] then prev else Some (last before))"

text \<open>
  The leftmost match: the text before it and the text after it
  (\<^verbatim>\<open>RegExp.prototype.exec\<close> without the flag \<^verbatim>\<open>g\<close>).
\<close>

fun exec_from :: "bool \<Rightarrow> regex \<Rightarrow> nat option \<Rightarrow> jstring \<Rightarrow> (jstring \<times> jstring) option" where
  "exec_from ic r prev [] =
     (case ends ic r (prev, []) of [] \<Rightarrow> None | e # es \<Rightarrow> Some ([], snd e))"
| "exec_from ic r prev (x # xs) =
     (case ends ic r (prev, x # xs) of
        e # es \<Rightarrow> Some ([], snd e)
      | [] \<Rightarrow> (case exec_from ic r (Some x) xs of
                 None \<Rightarrow> None
               | Some (before, after) \<Rightarrow> Some (x # before, after)))"

definition regex_exec :: "bool \<Rightarrow> regex \<Rightarrow> jstring \<Rightarrow> (jstring \<times> jstring) option" where
  "regex_exec ic r s = exec_from ic r None s"

definition regex_test :: "bool \<Rightarrow> regex \<Rightarrow> jstring \<Rightarrow> bool" where
  "regex_test ic r s = (regex_exec ic r s \<noteq> None)"

text \<open>\<^verbatim>\<open>s.replace(r, repl)\<close> for a pattern without the flag \<^verbatim>\<open>g\<close>.\<close>

definition replace_first :: "bool \<Rightarrow> regex \<Rightarrow> jstring \<Rightarrow> jstring \<Rightarrow> jstring" where
  "replace_first ic r s repl =
     (case regex_exec ic r s of None \<Rightarrow> s | Some (before, after) \<Rightarrow> before @ repl @ after)"

text \<open>\<^verbatim>\<open>s.match(r)\<close>: the matched text, when there is a match.\<close>

definition regex_match :: "bool \<Rightarrow> regex \<Rightarrow> jstring \<Rightarrow> jstring option" where
  "regex_match ic r s =
     (case regex_exec ic r s of
        None \<Rightarrow> None
      | Some (before, after) \<Rightarrow>
          Some (take (length s - length before - length after) (drop (length before) s)))"

text \<open>A literal, a sequence of patterns, and an alternation of literals.\<close>

definition lit :: "string \<Rightarrow> regex" where
  "lit w = foldr (\<lambda>c r. Seq (Chr (of_char c)) r) w Eps"

definition seqs :: "regex list \<Rightarrow> regex" where
  "seqs rs = foldr Seq rs Eps"

definition never :: regex where
  "never = Cls (\<lambda>c. False)"

definition words :: "string list \<Rightarrow> regex" where
  "words ws = foldr (\<lambda>w r. Alt (lit w) r) ws never"

section \<open>Address validator\<close>

text \<open>\<^verbatim>\<open>/\d+\.\d+\(\d+\)/\<close>, a rating such as 4.2(123).\<close>

definition ratingPattern :: regex where
  "ratingPattern =
     seqs [Many1 is_digit, Chr 46, Many1 is_digit, Chr 40, Many1 is_digit, Chr 41]"

text \<open>
  \<^verbatim>\<open>/\b(St|Street|Ave|Avenue|Rd|Road|Dr|Drive|Blvd|Boulevard|Way|Lane|Ln|Ct|Court|Pl|Place|Cir|Circle|Pkwy|Parkway|Hwy|Highway)\b/i\<close>
\<close>

definition streetSuffixTokens :: "string list" where
  "streetSuffixTokens =
     [''St'', ''Street'', ''Ave'', ''Avenue'', ''Rd'', ''Road'', ''Dr'', ''Drive'',
      ''Blvd'', ''Boulevard'', ''Way'', ''Lane'', ''Ln'', ''Ct'', ''Court'', ''Pl'',
      ''Place'', ''Cir'', ''Circle'', ''Pkwy'', ''Parkway'', ''Hwy'', ''Highway'']"

definition streetSuffixes :: regex where
  "streetSuffixes = seqs [WordB, words streetSuffixTokens, WordB]"

text \<open>
  In the words of the specification: the text contains one of the tokens, in any case,
  with no word character (a letter, a digit or the underscore) next to it on either side.
\<close>

definition containsToken :: "string list \<Rightarrow> jstring \<Rightarrow> bool" where
  "containsToken tokens s \<longleftrightarrow>
     (\<exists>before w after.
        s = before @ w @ after \<and>
        (\<exists>t\<in>set tokens. map canonicalize w = map canonicalize (js t)) \<and>
        (before = [] \<or> \<not> is_word (last before)) \<and>
        (after = [] \<or> \<not> is_word (hd after)))"

text \<open>The improper patterns of an address line, each with its flag \<^verbatim>\<open>i\<close>.\<close>

definition improperPatterns :: "(bool \<times> regex) list" where
  "improperPatterns =
     [(False, ratingPattern),
      (True, seqs [Many1 is_digit, lit ''-star'']),
      (True, words [''hotel'', ''inn'', ''suites'', ''motel'', ''resort'', ''lodge'']),
      (True, words [''restaurant'', ''cafe'', ''mall'', ''center'', ''plaza'']),
      (True, words [''gas station'', ''convenience store'']),
      (True, Alt (seqs [lit ''open '', Many1 is_digit]) (words [''closed'', ''hours'']))]"

definition some_pattern :: "(bool \<times> regex) list \<Rightarrow> jstring \<Rightarrow> bool" where
  "some_pattern patterns s = list_ex (\<lambda>p. regex_test (fst p) (snd p) s) patterns"

text \<open>The argument is \<open>None\<close> for \<^verbatim>\<open>null\<close> and \<^verbatim>\<open>undefined\<close>.\<close>

definition isValidAddressLine :: "jstring option \<Rightarrow> bool" where
  "isValidAddressLine a =
     (case a of
        None \<Rightarrow> False
      | Some addressLine \<Rightarrow>
          if addressLine = [] \<or> length (trim addressLine) = 0 then False
          else
            let hasNumber = regex_test False (Cls is_digit) addressLine;
                hasStreetSuffix = regex_test True streetSuffixes addressLine;
                hasImproperPattern = some_pattern improperPatterns addressLine
            in hasNumber \<and> hasStreetSuffix \<and> \<not> hasImproperPattern)"

text \<open>\<^verbatim>\<open>/^[a-zA-Z\s'\-\.]+$/\<close>\<close>

definition is_city_char :: "nat \<Rightarrow> bool" where
  "is_city_char c \<longleftrightarrow> is_alpha c \<or> is_space c \<or> c = 39 \<or> c = 45 \<or> c = 46"

definition cityPattern :: regex where
  "cityPattern = seqs [Bol, Many1 is_city_char, Eol]"

definition invalidPatterns :: "(bool \<times> regex) list" where
  "invalidPatterns =
     [(True, seqs [Bol, lit ''unknown'', Eol]),
      (True, seqs [Bol, lit ''n/a'', Eol]),
      (True, seqs [Bol, lit ''null'', Eol]),
      (True, seqs [Bol, lit ''undefined'', Eol]),
      (False, seqs [Bol, Many1 is_digit, Eol]),
      (False, seqs [Bol, Many0 (\<lambda>c. \<not> is_alpha c), Eol]),
      (False, seqs [Cls is_digit, Cls is_digit, Cls is_digit, Cls is_digit, Cls is_digit]),
      (True, seqs [WordB,
         words [''gas'', ''station'', ''store'', ''shop'', ''mart'', ''center'', ''plaza''],
         WordB]),
      (True, seqs [WordB, words [''open'', ''closed'', ''hours'', ''24/7''], WordB]),
      (False, ratingPattern)]"

definition isValidCity :: "jstring option \<Rightarrow> bool" where
  "isValidCity c =
     (case c of
        None \<Rightarrow> False
      | Some city \<Rightarrow>
          if city = [] \<or> length (trim city) = 0 then False
          else
            let cleanCity = trim city in
            if length cleanCity < 2 then False
            else if \<not> regex_test False cityPattern cleanCity then False
            else if some_pattern invalidPatterns cleanCity then False
            else if length cleanCity > 50 then False
            else if \<not> regex_test False (seqs [Bol, Cls is_alpha]) cleanCity then False
            else True)"

section \<open>Faults and results\<close>

text \<open>
  A JavaScript \<^verbatim>\<open>throw\<close> carries any value: an \<^verbatim>\<open>Error\<close> object with its message, or
  something that is not an \<^verbatim>\<open>Error\<close>. An operation that may throw returns an
  \<open>attempt\<close>.
\<close>

datatype thrown = ErrorObject jstring | OtherValue

datatype 'a attempt = Throws thrown | Returns 'a

section \<open>Arrays and lines\<close>

text \<open>\<^verbatim>\<open>s.split(sep)\<close> for a separator of one code unit, and \<^verbatim>\<open>lines.join(sep)\<close>.\<close>

fun split_on :: "nat \<Rightarrow> jstring \<Rightarrow> jstring list" where
  "split_on sep [] = [[]]"
| "split_on sep (x # xs) =
     (if x = sep then [] # split_on sep xs
      else (case split_on sep xs of [] \<Rightarrow> [[x]] | seg # segs \<Rightarrow> (x # seg) # segs))"

fun join :: "nat \<Rightarrow> jstring list \<Rightarrow> jstring" where
  "join sep [] = []"
| "join sep [l] = l"
| "join sep (l # ls) = l @ sep # join sep ls"

text \<open>\<^verbatim>\<open>xs[i]\<close>: \<^verbatim>\<open>undefined\<close> (\<open>None\<close>) outside the array.\<close>

definition at :: "'a list \<Rightarrow> nat \<Rightarrow> 'a option" where
  "at xs i = (if i < length xs then Some (xs ! i) else None)"

text \<open>\<^verbatim>\<open>xs.indexOf(y)\<close>, with \<open>None\<close> for -1.\<close>

fun indexOf :: "'a list \<Rightarrow> 'a \<Rightarrow> nat option" where
  "indexOf [] y = None"
| "indexOf (x # xs) y = (if x = y then Some 0 else map_option Suc (indexOf xs y))"

text \<open>
  \<^verbatim>\<open>xs.slice(start, stop)\<close> with the relative indices of ECMAScript: a negative index
  counts from the end of the array.
\<close>

definition slice :: "'a list \<Rightarrow> int \<Rightarrow> int \<Rightarrow> 'a list" where
  "slice xs start stop =
     (let len = int (length xs);
          k = (if start < 0 then max (len + start) 0 else min start len);
          final = (if stop < 0 then max (len + stop) 0 else min stop len)
      in take (nat (final - k)) (drop (nat k) xs))"

text \<open>\<^verbatim>\<open>col.replace(/^"|"$/g, '')\<close>: a double quote at the start and one at the end are removed.\<close>

definition strip_quotes :: "jstring \<Rightarrow> jstring" where
  "strip_quotes col =
     (let rest = (case col of [] \<Rightarrow> [] | x # xs \<Rightarrow> if x = 34 then xs else col)
      in if rest \<noteq> [] \<and> last rest = 34 then butlast rest else rest)"

text \<open>\<^verbatim>\<open>s.replace(pat, repl)\<close> for a string \<open>pat\<close>: the first occurrence is replaced.\<close>

fun replace_str :: "jstring \<Rightarrow> jstring \<Rightarrow> jstring \<Rightarrow> jstring" where
  "replace_str [] pat repl = (if pat = [] then repl else [])"
| "replace_str (x # xs) pat repl =
     (if take (length pat) (x # xs) = pat then repl @ drop (length pat) (x # xs)
      else x # replace_str xs pat repl)"

section \<open>Address parser: \<open>parseAddress\<close>\<close>

text \<open>\<^verbatim>\<open>/\s+[A-Z]{2}\s+\d{5}.*$/\<close>\<close>

definition stateZipPattern :: regex where
  "stateZipPattern =
     seqs [Many1 is_space, Cls is_upper, Cls is_upper, Many1 is_space,
       Cls is_digit, Cls is_digit, Cls is_digit, Cls is_digit, Cls is_digit,
       Many0 is_dot, Eol]"

text \<open>
  In the words of the specification: a state and zip suffix is white space, a state of two
  capital letters, white space, a zip of five digits, and whatever follows on the line.
\<close>

definition stateZipSuffix :: "jstring \<Rightarrow> bool" where
  "stateZipSuffix tail \<longleftrightarrow>
     (\<exists>sp1 st sp2 zip rest.
        tail = sp1 @ st @ sp2 @ zip @ rest \<and>
        sp1 \<noteq> [] \<and> list_all is_space sp1 \<and>
        length st = 2 \<and> list_all is_upper st \<and>
        sp2 \<noteq> [] \<and> list_all is_space sp2 \<and>
        length zip = 5 \<and> list_all is_digit zip \<and>
        list_all is_dot rest)"

text \<open>\<^verbatim>\<open>/^(\d+.*?(?:St|Ave|Rd|Dr|Blvd|Way|Lane|Ln|Ct|Pl))/i\<close>\<close>

definition streetPattern :: regex where
  "streetPattern =
     seqs [Bol, Many1 is_digit, Lazy0 is_dot,
       words [''St'', ''Ave'', ''Rd'', ''Dr'', ''Blvd'', ''Way'', ''Lane'', ''Ln'', ''Ct'', ''Pl'']]"

text \<open>The object \<^verbatim>\<open>{ addressline, city }\<close> that the parser returns.\<close>

record parsed =
  parsed_addressline :: jstring
  parsed_city :: jstring

text \<open>
  Nothing in the body of the \<^verbatim>\<open>try\<close> throws on a string, so the \<^verbatim>\<open>catch\<close> is never
  entered.
\<close>

definition parseAddress :: "jstring \<Rightarrow> parsed" where
  "parseAddress text =
     (let fullAddress = cleanAddressText text;
          parts = map trim (split_on 44 fullAddress)
      in if length parts \<ge> 2 then
           \<lparr>parsed_addressline = parts ! 0,
            parsed_city = trim (replace_first False stateZipPattern (parts ! 1) [])\<rparr>
         else
           (case regex_match True streetPattern fullAddress of
              Some streetMatch \<Rightarrow>
                let remaining = trim (drop (length streetMatch) fullAddress);
                    c = trim (hd (split_on 44 remaining))
                in \<lparr>parsed_addressline = streetMatch,
                    parsed_city = (if c = [] then js ''Unknown'' else c)\<rparr>
            | None \<Rightarrow> \<lparr>parsed_addressline = fullAddress, parsed_city = js ''Unknown''\<rparr>))"

section \<open>Sharded record store\<close>

text \<open>
  The table file at \<^verbatim>\<open>csvFilePath\<close>: absent, present but failing to be read or written
  (\<^verbatim>\<open>readFileSync\<close> throws), or present with its content.
\<close>

datatype csv_file = Absent | Unreadable thrown | Content jstring

subsection \<open>\<open>updateFinalCSV\<close>\<close>

definition canonicalHeader :: jstring where
  "canonicalHeader = js ''zipcode,state,address,city''"

text \<open>The header as \<open>updateFinalCSV\<close> rewrites it in \<^verbatim>\<open>lines[0]\<close>.\<close>

definition fixHeader :: "jstring list \<Rightarrow> jstring list" where
  "fixHeader lines =
     (let headerColumns = split_on 44 (hd lines);
          hasAddressColumn = (js ''address'' \<in> set headerColumns);
          hasCityColumn = (js ''city'' \<in> set headerColumns)
      in if \<not> hasAddressColumn \<or> \<not> hasCityColumn then lines[0 := canonicalHeader] else lines)"

text \<open>
  The loop that looks for the row: \<open>findRow zipcode state ls i\<close> scans the lines \<open>ls\<close>,
  the first of which has index \<open>i\<close>.
\<close>

fun findRow :: "jstring \<Rightarrow> jstring \<Rightarrow> jstring list \<Rightarrow> nat \<Rightarrow> nat option" where
  "findRow zipcode state [] i = None"
| "findRow zipcode state (l # ls) i =
     (if trim l = [] then findRow zipcode state ls (Suc i)
      else
        let columns = split_on 44 l in
        if length columns \<ge> 2 \<and> columns ! 0 = zipcode \<and> columns ! 1 = state then Some i
        else findRow zipcode state ls (Suc i))"

text \<open>The test of the loop on one line: the line is not blank and its first two columns are the key.\<close>

definition rowMatches :: "jstring \<Rightarrow> jstring \<Rightarrow> jstring \<Rightarrow> bool" where
  "rowMatches zipcode state l \<longleftrightarrow>
     trim l \<noteq> [] \<and> length (split_on 44 l) \<ge> 2 \<and> split_on 44 l ! 0 = zipcode \<and>
     split_on 44 l ! 1 = state"

text \<open>The row as it is rebuilt from its columns, padded to four with \<^verbatim>\<open>""\<close>.\<close>

definition rebuildRow :: "jstring \<Rightarrow> jstring \<Rightarrow> jstring \<Rightarrow> jstring" where
  "rebuildRow line addressLine city =
     (let rowColumns = split_on 44 line;
          rowColumns = rowColumns @ replicate (4 - length rowColumns) (js ''\"\"'');
          columns = map strip_quotes rowColumns;
          columns = columns[2 := addressLine];
          columns = columns[3 := city]
      in columns ! 0 @ js '','' @ columns ! 1 @ js '',\"'' @ columns ! 2 @ js ''\",\"'' @
         columns ! 3 @ js ''\"'')"

definition updateFinalCSV ::
  "csv_file \<Rightarrow> jstring \<Rightarrow> jstring \<Rightarrow> jstring \<Rightarrow> jstring \<Rightarrow> csv_file attempt" where
  "updateFinalCSV f zipcode state addressLine city =
     (case f of
        Absent \<Rightarrow> Returns Absent
      | Unreadable e \<Rightarrow> Throws e
      | Content csvContent \<Rightarrow>
          let lines = fixHeader (split_on 10 csvContent) in
          (case findRow zipcode state (tl lines) 1 of
             None \<Rightarrow> Returns (Content csvContent)
           | Some rowIndex \<Rightarrow>
               Returns (Content (join 10
                 (lines[rowIndex := rebuildRow (lines ! rowIndex) addressLine city])))))"

subsection \<open>\<open>readZipCodesFromCSV\<close>\<close>

text \<open>
  The configuration of a run: the constant \<^verbatim>\<open>TARGET_STATE\<close> (a string or an array of
  strings) and the integers read from the environment.
\<close>

datatype target_state = State jstring | States "jstring list"

record config =
  TARGET_STATE :: target_state
  SHARD_INDEX :: int
  TOTAL_SHARDS :: int
  MAX_RECORDS_PER_SHARD :: int

text \<open>A parsed data row; a column that the row does not have is \<^verbatim>\<open>undefined\<close>.\<close>

record item =
  item_zipcode :: "jstring option"
  item_state :: "jstring option"
  item_address :: "jstring option"
  item_city :: "jstring option"

text \<open>Truthiness of a string that may be \<^verbatim>\<open>undefined\<close>.\<close>

definition truthy :: "jstring option \<Rightarrow> bool" where
  "truthy v = (case v of None \<Rightarrow> False | Some s \<Rightarrow> s \<noteq> [])"

definition parseLine :: "nat \<Rightarrow> nat \<Rightarrow> jstring \<Rightarrow> item" where
  "parseLine addressIndex cityIndex line =
     (let columns = map (\<lambda>item. strip_quotes (trim item)) (split_on 44 line)
      in \<lparr>item_zipcode = at columns 0, item_state = at columns 1,
          item_address = at columns addressIndex, item_city = at columns cityIndex\<rparr>)"

definition stateFilter :: "target_state \<Rightarrow> item list \<Rightarrow> item list" where
  "stateFilter target zipCodes =
     (case target of
        State t \<Rightarrow>
          if t \<noteq> js ''ALL'' then filter (\<lambda>item. item_state item = Some t) zipCodes
          else zipCodes
      | States ts \<Rightarrow>
          filter (\<lambda>item. case item_state item of None \<Rightarrow> False | Some s \<Rightarrow> s \<in> set ts)
            zipCodes)"

definition noAddress :: "item \<Rightarrow> bool" where
  "noAddress item \<longleftrightarrow> \<not> truthy (item_address item) \<or> \<not> truthy (item_city item)"

text \<open>
  \<^verbatim>\<open>Math.ceil(n / k)\<close> on integers, with \<open>k\<close> positive.
\<close>

definition ceil_div :: "int \<Rightarrow> int \<Rightarrow> int" where
  "ceil_div n k = - ((- n) div k)"

definition recordsPerShard :: "config \<Rightarrow> 'a list \<Rightarrow> int" where
  "recordsPerShard cfg records = ceil_div (int (length records)) (TOTAL_SHARDS cfg)"

definition startIndex :: "config \<Rightarrow> 'a list \<Rightarrow> int" where
  "startIndex cfg records = SHARD_INDEX cfg * recordsPerShard cfg records"

definition endIndex :: "config \<Rightarrow> 'a list \<Rightarrow> int" where
  "endIndex cfg records =
     min (startIndex cfg records + recordsPerShard cfg records) (int (length records))"

definition actualEndIndex :: "config \<Rightarrow> 'a list \<Rightarrow> int" where
  "actualEndIndex cfg records =
     min (endIndex cfg records) (startIndex cfg records + MAX_RECORDS_PER_SHARD cfg)"

text \<open>The block that applies the sharding to the pending records.\<close>

definition applySharding :: "config \<Rightarrow> 'a list \<Rightarrow> 'a list" where
  "applySharding cfg noAddressRecords =
     (if TOTAL_SHARDS cfg > 1 then
        slice noAddressRecords (startIndex cfg noAddressRecords)
          (actualEndIndex cfg noAddressRecords)
      else noAddressRecords)"

text \<open>
  A work unit is the pair of a zipcode and a state. Reading \<^verbatim>\<open>lines[0]\<close> of a file with
  no line that is not blank throws a \<^verbatim>\<open>TypeError\<close>.
\<close>

definition pendingRecords :: "config \<Rightarrow> jstring list \<Rightarrow> jstring list \<Rightarrow> item list option" where
  "pendingRecords cfg header rows =
     (case (indexOf header (js ''address''), indexOf header (js ''city'')) of
        (Some addressIndex, Some cityIndex) \<Rightarrow>
          let zipCodes = filter (\<lambda>item. truthy (item_zipcode item) \<and> truthy (item_state item))
                           (map (parseLine addressIndex cityIndex) rows);
              stateFiltered = stateFilter (TARGET_STATE cfg) zipCodes
          in Some (filter noAddress stateFiltered)
      | _ \<Rightarrow> None)"

definition workUnit :: "item \<Rightarrow> jstring \<times> jstring" where
  "workUnit item =
     (case (item_zipcode item, item_state item) of
        (Some zipcode, Some state) \<Rightarrow> (zipcode, state)
      | _ \<Rightarrow> ([], []))"

definition readZipCodesFromCSV :: "config \<Rightarrow> csv_file \<Rightarrow> (jstring \<times> jstring) list attempt" where
  "readZipCodesFromCSV cfg f =
     (case f of
        Absent \<Rightarrow> Returns []
      | Unreadable e \<Rightarrow> Throws e
      | Content csvContent \<Rightarrow>
          (case filter (\<lambda>line. trim line \<noteq> []) (split_on 10 csvContent) of
             [] \<Rightarrow> Throws (ErrorObject (js ''Cannot read properties of undefined (reading '' @
                     [39] @ js ''split'' @ [39] @ js '')''))
           | header # rows \<Rightarrow>
               (case pendingRecords cfg (split_on 44 header) rows of
                  None \<Rightarrow> Returns []
                | Some noAddressRecords \<Rightarrow>
                    Returns (map workUnit (applySharding cfg noAddressRecords)))))"

text \<open>
  The table and the configurations of the end-to-end scenario of the specification: two
  pending rows of the state NY.
\<close>

definition scenarioTable :: jstring where
  "scenarioTable =
     join 10 [js ''zipcode,state,address,city'', js ''10001,NY,,'', js ''10002,NY,,'']"

definition scenarioConfig :: "int \<Rightarrow> int \<Rightarrow> int \<Rightarrow> config" where
  "scenarioConfig shardIndex totalShards maxPerShard =
     \<lparr>TARGET_STATE = State (js ''ALL''), SHARD_INDEX = shardIndex,
      TOTAL_SHARDS = totalShards, MAX_RECORDS_PER_SHARD = maxPerShard\<rparr>"

section \<open>Search-and-retry orchestrator: \<open>searchForLocationType\<close> and \<open>processZipCode\<close>\<close>

definition SEARCH_TYPES :: "jstring list" where
  "SEARCH_TYPES =
     [js ''post office'', js ''schools'', js ''colleges'', js ''petrol stations'',
      js ''government office'', js ''apartments'', js ''hospitals'', js ''pharmacies'',
      js ''police station'']"

text \<open>
  The automation collaborator. Opening the URL of a search and listing its results either
  throws or gives the result entries; clicking an entry and reading the
  \<^verbatim>\<open>aria-label\<close> of its address button either throws or gives the label, which may be
  \<^verbatim>\<open>null\<close>.
\<close>

type_synonym entry = "jstring option attempt"

type_synonym page = "jstring \<Rightarrow> entry list attempt"

definition searchUrl :: "jstring \<Rightarrow> jstring \<Rightarrow> jstring \<Rightarrow> jstring" where
  "searchUrl searchType zipcode state =
     js ''https://www.google.com/maps/search/'' @ searchType @ js ''+in+'' @ zipcode @
     js ''+'' @ state @ js ''+USA''"

text \<open>\<^verbatim>\<open>x?.trim()\<close> and the third comma-separated part of the label split on a space.\<close>

definition thirdPart :: "jstring \<Rightarrow> nat \<Rightarrow> jstring option" where
  "thirdPart completeAddress i =
     (case at (split_on 44 completeAddress) 2 of
        None \<Rightarrow> None
      | Some part \<Rightarrow> map_option trim (at (split_on 32 (trim part)) i))"

text \<open>
  The loop over the search results. Its body is a \<^verbatim>\<open>try\<close> whose \<^verbatim>\<open>catch\<close> logs the
  fault and continues with the next result.
\<close>

fun tryResults :: "jstring \<Rightarrow> jstring \<Rightarrow> entry list \<Rightarrow> (jstring \<times> jstring) option" where
  "tryResults zipcode state [] = None"
| "tryResults zipcode state (searchResult # searchResults) =
     (case searchResult of
        Throws innerError \<Rightarrow> tryResults zipcode state searchResults
      | Returns None \<Rightarrow> tryResults zipcode state searchResults
      | Returns (Some completeAddress) \<Rightarrow>
          if completeAddress = [] then tryResults zipcode state searchResults
          else
            let addressLine =
                  trim (hd (split_on 44 (replace_str completeAddress (js ''Address: '') [])));
                cty = map_option trim (at (split_on 44 completeAddress) 1);
                stateInCompleteAddress = thirdPart completeAddress 0;
                zipcodeInCompleteAddress = thirdPart completeAddress 1
            in if stateInCompleteAddress \<noteq> Some state \<or> zipcodeInCompleteAddress \<noteq> Some zipcode
               then tryResults zipcode state searchResults
               else if isValidAddressLine (Some addressLine) \<and> isValidCity cty
               then Some (addressLine, (case cty of None \<Rightarrow> [] | Some c \<Rightarrow> c))
               else tryResults zipcode state searchResults)"

text \<open>The outer \<^verbatim>\<open>catch\<close> of \<open>searchForLocationType\<close> logs the fault and returns \<^verbatim>\<open>null\<close>.\<close>

definition searchForLocationType ::
  "page \<Rightarrow> jstring \<Rightarrow> jstring \<Rightarrow> jstring \<Rightarrow> (jstring \<times> jstring) option" where
  "searchForLocationType pg zipcode state searchType =
     (case pg (searchUrl searchType zipcode state) of
        Throws error \<Rightarrow> None
      | Returns searchResults \<Rightarrow> tryResults zipcode state searchResults)"

text \<open>The loop over the search types, left at the first result that is not \<^verbatim>\<open>null\<close>.\<close>

fun trySearchTypes ::
  "page \<Rightarrow> jstring \<Rightarrow> jstring \<Rightarrow> jstring list \<Rightarrow> (jstring \<times> jstring) option" where
  "trySearchTypes pg zipcode state [] = None"
| "trySearchTypes pg zipcode state (searchType # searchTypes) =
     (case searchForLocationType pg zipcode state searchType of
        Some result \<Rightarrow> Some result
      | None \<Rightarrow> trySearchTypes pg zipcode state searchTypes)"

text \<open>
  \<open>processZipCode\<close> gives the table file as it leaves it, or throws when the update in
  its \<^verbatim>\<open>catch\<close> throws again.
\<close>

definition processZipCode :: "page \<Rightarrow> csv_file \<Rightarrow> jstring \<Rightarrow> jstring \<Rightarrow> csv_file attempt" where
  "processZipCode pg f zipcode state =
     (let body =
            (case trySearchTypes pg zipcode state SEARCH_TYPES of
               Some (finalAddress, finalCity) \<Rightarrow>
                 updateFinalCSV f zipcode state finalAddress finalCity
             | None \<Rightarrow> updateFinalCSV f zipcode state (js ''Not Found'') (js ''Not Found''))
      in case body of
           Returns f' \<Rightarrow> Returns f'
         | Throws error \<Rightarrow> updateFinalCSV f zipcode state (js ''Error'') (js ''Error''))"

text \<open>
  Two pages for the scenario: one on which every search times out, and one on which the
  search for the first search type times out and every other search finds one result.
\<close>

definition timeoutPage :: page where
  "timeoutPage url = Throws (ErrorObject (js ''Timeout 30000ms exceeded''))"

definition firstSearchFails :: page where
  "firstSearchFails url =
     (if url = searchUrl (js ''post office'') (js ''10001'') (js ''NY'')
      then Throws (ErrorObject (js ''Timeout 30000ms exceeded''))
      else Returns [Returns (Some (js ''Address: 12 Main St, Albany, NY 10001, United States''))])"

section \<open>Address extractor: \<open>AddressExtractor.extractAddress\<close>\<close>



subsection \<open>\<open>validateAddress\<close>\<close>








subsection \<open>\<open>extractAddress\<close>\<close>








section \<open>Outer retry wrapper: \<open>ParallelProcessor.processWithRetry\<close>\<close>

text \<open>
  \<open>extract n\<close> is what the \<open>n\<close>-th call of \<open>extractAddress\<close> does. \<open>lastError\<close> is kept
  by its message: a thrown value that is not an \<^verbatim>\<open>Error\<close> is replaced by
  \<^verbatim>\<open>new Error('Unknown error')\<close>.
\<close>




section \<open>Output files: \<open>CsvUtils.writeResults\<close> and \<open>CsvUtils.writeDetailedResults\<close>\<close>




section \<open>Properties of the text normalizer\<close>

lemmas class_defs =
  is_space_def is_private_use_def is_leading_glyph_def is_zero_width_def is_exotic_space_def
  is_digit_def is_upper_def is_lower_def is_alpha_def is_word_def is_dot_def is_city_char_def

lemmas normalizer_defs = cleanText_def cleanAddressText_def trim_def trimEnd_def js_def

lemma space_glyph: "is_space c \<Longrightarrow> is_leading_glyph c" by (simp add: is_leading_glyph_def)
lemma exotic_space: "is_exotic_space c \<Longrightarrow> is_space c" by (auto simp add: is_exotic_space_def is_space_def)
lemma not_pu32: "\<not> is_private_use 32" by (simp add: is_private_use_def)
lemma not_zw32: "\<not> is_zero_width 32" by (simp add: is_zero_width_def)
lemma not_ex32: "\<not> is_exotic_space 32" by (simp add: is_exotic_space_def)

lemma dropWhile_hd_cases: "dropWhile P s = [] \<or> \<not> P (hd (dropWhile P s))"
  using hd_dropWhile [of P s] by blast

lemma compact_Cons:
  "compact (a # s) \<longleftrightarrow> (is_space a \<longrightarrow> a = 32 \<and> (s = [] \<or> \<not> is_space (hd s))) \<and> compact s"
  by (cases s) auto

lemma collapse_ws_hd:
  "s \<noteq> [] \<Longrightarrow> \<not> is_space (hd s) \<Longrightarrow> collapse_ws s \<noteq> [] \<and> hd (collapse_ws s) = hd s"
  by (cases s) auto

lemma collapse_ws_hd_cases:
  "s = [] \<or> \<not> is_space (hd s) \<Longrightarrow> collapse_ws s = [] \<or> \<not> is_space (hd (collapse_ws s))"
  by (cases s) auto

lemma compact_collapse_ws: "compact (collapse_ws s)"
proof (induction s rule: collapse_ws.induct)
  case 1
  show ?case by simp
next
  case (2 c cs)
  show ?case
  proof (cases "is_space c")
    case True
    let ?r = "dropWhile is_space cs"
    have "collapse_ws ?r = [] \<or> \<not> is_space (hd (collapse_ws ?r))"
      by (rule collapse_ws_hd_cases [OF dropWhile_hd_cases])
    with True 2 show ?thesis by (simp add: compact_Cons)
  next
    case False
    with 2 show ?thesis by (simp add: compact_Cons)
  qed
qed

lemma compact_fixed: "compact s \<Longrightarrow> collapse_ws s = s"
proof (induction s rule: compact.induct)
  case 1
  show ?case by simp
next
  case (2 c)
  then show ?case by auto
next
  case (3 a b cs)
  then show ?case by auto
qed

lemma compact_append: "compact (xs @ ys) \<Longrightarrow> compact xs \<and> compact ys"
proof (induction xs rule: compact.induct)
  case 1
  then show ?case by simp
next
  case (2 c)
  then show ?case by (cases ys) auto
next
  case (3 a b cs)
  then show ?case by auto
qed

lemma compact_dropWhile: "compact s \<Longrightarrow> compact (dropWhile P s)"
  using compact_append [of "takeWhile P s" "dropWhile P s"] by simp

lemma trimEnd_decomp: "s = trimEnd s @ rev (takeWhile is_space (rev s))"
  unfolding trimEnd_def by (metis rev_append rev_rev_ident takeWhile_dropWhile_id)

lemma compact_trimEnd: "compact s \<Longrightarrow> compact (trimEnd s)"
  using compact_append [of "trimEnd s" "rev (takeWhile is_space (rev s))"] trimEnd_decomp [of s]
  by simp

lemma compact_trim: "compact s \<Longrightarrow> compact (trim s)"
  by (simp add: trim_def compact_trimEnd compact_dropWhile)

lemma set_trimEnd: "set (trimEnd s) \<subseteq> set s"
  using set_dropWhileD [of _ is_space "rev s"] by (auto simp: trimEnd_def)

lemma set_trim: "set (trim s) \<subseteq> set s"
  using set_trimEnd [of "dropWhile is_space s"] set_dropWhileD [of _ is_space s]
  by (auto simp: trim_def)

lemma set_collapse_ws: "set (collapse_ws s) \<subseteq> insert 32 (set s)"
proof (induction s rule: collapse_ws.induct)
  case 1
  show ?case by simp
next
  case (2 c cs)
  then show ?case using set_dropWhileD [of _ is_space cs] by (cases "is_space c") auto
qed

lemma trimEnd_hd:
  assumes "s \<noteq> []" and "\<not> is_space (hd s)"
  shows "trimEnd s \<noteq> [] \<and> hd (trimEnd s) = hd s"
proof -
  from assms obtain x t where s: "s = x # t" and x: "\<not> is_space x" by (cases s) auto
  have "\<exists>zs. dropWhile is_space (rev t @ [x]) = zs @ [x]"
    using x by (simp add: dropWhile_append)
  then obtain zs where "dropWhile is_space (rev t @ [x]) = zs @ [x]" ..
  then show ?thesis by (simp add: trimEnd_def s)
qed

lemma trimEnd_hd_cases:
  "s = [] \<or> \<not> is_space (hd s) \<Longrightarrow> trimEnd s = [] \<or> \<not> is_space (hd (trimEnd s))"
proof (cases s)
  case Nil
  then show ?thesis by (simp add: trimEnd_def)
next
  case (Cons x t)
  assume "s = [] \<or> \<not> is_space (hd s)"
  with Cons trimEnd_hd [of s] show ?thesis by simp
qed

lemma trimEnd_idem: "trimEnd (trimEnd s) = trimEnd s"
  by (simp add: trimEnd_def)

lemma dropWhile_fixed: "s = [] \<or> \<not> P (hd s) \<Longrightarrow> dropWhile P s = s"
  by (cases s) auto

lemma trim_hd:
  assumes "s \<noteq> []" and "\<not> is_space (hd s)"
  shows "trim s \<noteq> [] \<and> hd (trim s) = hd s"
  using assms trimEnd_hd [of s] by (simp add: trim_def dropWhile_fixed)

lemma trim_idem: "trim (trim s) = trim s"
proof -
  let ?y = "dropWhile is_space s"
  have "trimEnd ?y = [] \<or> \<not> is_space (hd (trimEnd ?y))"
    by (rule trimEnd_hd_cases [OF dropWhile_hd_cases])
  then have "dropWhile is_space (trimEnd ?y) = trimEnd ?y" by (rule dropWhile_fixed)
  then show ?thesis by (simp add: trim_def trimEnd_idem)
qed


lemma cleanAddressText_chars:
  assumes "c \<in> set (cleanAddressText x)"
  shows "\<not> is_private_use c \<and> \<not> is_zero_width c \<and> \<not> is_exotic_space c"
proof -
  let ?a = "filter (\<lambda>c. \<not> is_private_use c) x"
  let ?b = "dropWhile is_leading_glyph ?a"
  let ?c = "filter (\<lambda>c. \<not> is_zero_width c) ?b"
  let ?d = "map (\<lambda>c. if is_exotic_space c then 32 else c) ?c"
  from assms have "c \<in> set (collapse_ws ?d)"
    using set_trim [of "collapse_ws ?d"] by (auto simp: cleanAddressText_def)
  then have "c = 32 \<or> c \<in> set ?d" using set_collapse_ws [of ?d] by auto
  then show ?thesis
  proof
    assume "c = 32"
    then show ?thesis by (simp add: not_pu32 not_zw32 not_ex32)
  next
    assume "c \<in> set ?d"
    then obtain e where e: "e \<in> set ?c" and c: "c = (if is_exotic_space e then 32 else e)"
      by auto
    from e have "\<not> is_zero_width e" and "e \<in> set ?a"
      using set_dropWhileD [of e is_leading_glyph ?a] by auto
    then have "\<not> is_zero_width e \<and> \<not> is_private_use e" by simp
    with c show ?thesis by (auto simp: not_pu32 not_zw32 not_ex32)
  qed
qed

lemma cleanAddressText_compact: "compact (cleanAddressText x)"
  by (simp add: cleanAddressText_def compact_trim compact_collapse_ws)

lemma cleanAddressText_trimmed: "trim (cleanAddressText x) = cleanAddressText x"
  by (simp add: cleanAddressText_def trim_idem)

lemma cleanAddressText_fixed:
  assumes chars: "\<forall>c\<in>set r. \<not> is_private_use c \<and> \<not> is_zero_width c \<and> \<not> is_exotic_space c"
    and "compact r" and "trim r = r" and "r = [] \<or> \<not> is_leading_glyph (hd r)"
  shows "cleanAddressText r = r"
proof -
  have a: "filter (\<lambda>c. \<not> is_private_use c) r = r" using chars by (simp add: filter_id_conv)
  have b: "dropWhile is_leading_glyph r = r" using assms(4) by (rule dropWhile_fixed)
  have c: "filter (\<lambda>c. \<not> is_zero_width c) r = r" using chars by (simp add: filter_id_conv)
  have d: "map (\<lambda>c. if is_exotic_space c then 32 else c) r = r"
    using chars by (simp add: map_idI)
  show ?thesis using assms(2,3) by (simp add: cleanAddressText_def a b c d compact_fixed)
qed

lemma cleanAddressText_head:
  assumes "\<forall>c\<in>set x. \<not> (0x200B \<le> c \<and> c \<le> 0x200D)"
  shows "cleanAddressText x = [] \<or> \<not> is_leading_glyph (hd (cleanAddressText x))"
proof -
  let ?a = "filter (\<lambda>c. \<not> is_private_use c) x"
  let ?b = "dropWhile is_leading_glyph ?a"
  let ?c = "filter (\<lambda>c. \<not> is_zero_width c) ?b"
  let ?d = "map (\<lambda>c. if is_exotic_space c then 32 else c) ?c"
  show ?thesis
  proof (cases "?b = []")
    case True
    show ?thesis unfolding cleanAddressText_def True by (simp add: trim_def trimEnd_def)
  next
    case False
    then obtain h t where b: "?b = h # t" by (cases ?b) auto
    have h: "\<not> is_leading_glyph h" using hd_dropWhile [of is_leading_glyph ?a] False b by simp
    then have hs: "\<not> is_space h" using space_glyph by blast
    have "h \<in> set x" using set_dropWhileD [of h is_leading_glyph ?a] b by auto
    with assms hs have "\<not> is_zero_width h" by (auto simp: is_zero_width_def is_space_def)
    then have c: "?c = h # filter (\<lambda>c. \<not> is_zero_width c) t" by (simp add: b)
    have "\<not> is_exotic_space h" using hs exotic_space by blast
    then have d: "?d = h # map (\<lambda>c. if is_exotic_space c then 32 else c) (filter (\<lambda>c. \<not> is_zero_width c) t)"
      by (simp add: c)
    have "collapse_ws ?d \<noteq> [] \<and> hd (collapse_ws ?d) = h"
      using collapse_ws_hd [of ?d] hs by (simp add: d)
    then have "trim (collapse_ws ?d) \<noteq> [] \<and> hd (trim (collapse_ws ?d)) = h"
      using trim_hd [of "collapse_ws ?d"] hs by simp
    with h show ?thesis by (simp add: cleanAddressText_def)
  qed
qed


lemma cleanText_eq: "cleanText x = cleanAddressText x"
  by (simp add: cleanText_def cleanAddressText_def trim_def trimEnd_def)

text \<open>
  Where the normalizer is idempotent: at every text whose normal form does not begin with
  one of the leading glyphs, and so at every text without a zero-width code point U+200B,
  U+200C or U+200D.
\<close>

lemma cleanText_idempotent:
  assumes "(\<forall>c\<in>set x. \<not> (0x200B \<le> c \<and> c \<le> 0x200D)) \<or>
           cleanText x = [] \<or> \<not> is_leading_glyph (hd (cleanText x))"
  shows "cleanText (cleanText x) = cleanText x \<and>
         cleanAddressText (cleanAddressText x) = cleanAddressText x"
proof -
  have "cleanAddressText x = [] \<or> \<not> is_leading_glyph (hd (cleanAddressText x))"
    using assms cleanAddressText_head [of x] by (auto simp: cleanText_eq)
  moreover have "\<forall>c\<in>set (cleanAddressText x).
      \<not> is_private_use c \<and> \<not> is_zero_width c \<and> \<not> is_exotic_space c"
    using cleanAddressText_chars by blast
  ultimately have "cleanAddressText (cleanAddressText x) = cleanAddressText x"
    using cleanAddressText_compact [of x] cleanAddressText_trimmed [of x]
    by (intro cleanAddressText_fixed) simp_all
  then show ?thesis by (simp add: cleanText_eq)
qed

lemma cleanText_idempotent_example:
  "cleanText [0xE0C8, 32, 0x2022, 49, 0xA0, 32, 65] = [49, 32, 65] \<and>
   cleanText (cleanText [0xE0C8, 32, 0x2022, 49, 0xA0, 32, 65]) =
     cleanText [0xE0C8, 32, 0x2022, 49, 0xA0, 32, 65]"
proof -
  have h: "\<forall>c\<in>set [0xE0C8, 32, 0x2022, 49, 0xA0, 32, 65]. \<not> (0x200B \<le> c \<and> c \<le> (0x200D::nat))"
    by simp
  have v: "cleanText [0xE0C8, 32, 0x2022, 49, 0xA0, 32, 65] = [49, 32, 65]"
    by (simp add: normalizer_defs class_defs)
  from h have "(\<forall>c\<in>set [0xE0C8, 32, 0x2022, 49, 0xA0, 32, 65]. \<not> (0x200B \<le> c \<and> c \<le> (0x200D::nat))) \<or>
      cleanText [0xE0C8, 32, 0x2022, 49, 0xA0, 32, 65] = [] \<or>
      \<not> is_leading_glyph (hd (cleanText [0xE0C8, 32, 0x2022, 49, 0xA0, 32, 65]))" ..
  from cleanText_idempotent [OF this] v show ?thesis by simp
qed

text \<open>
  C5. The normalizer is not idempotent at a zero-width space followed by a hyphen and
  \<open>x\<close>: the first pass gives \<open>-x\<close>, the second gives \<open>x\<close>. The leading glyphs are
  stripped before the zero-width code points are removed, so the hyphen is not at the
  beginning when the glyphs are stripped and is at the beginning of the result. Both
  normalizers have the same chain, and the same holds of \<open>cleanAddressText\<close>.
\<close>

theorem cleanText_not_idempotent:
  "cleanText [0x200B, 45, 120] = [45, 120] \<and> cleanText (cleanText [0x200B, 45, 120]) = [120] \<and>
   cleanText (cleanText [0x200B, 45, 120]) \<noteq> cleanText [0x200B, 45, 120] \<and>
   cleanAddressText [0x200B, 45, 120] = [45, 120] \<and>
   cleanAddressText (cleanAddressText [0x200B, 45, 120]) = [120]"
  by (simp add: normalizer_defs class_defs)

section \<open>Properties of the address validator\<close>

lemmas regex_defs =
  canonicalize_def chr_eq_def at_word_boundary_def regex_exec_def regex_test_def
  replace_first_def regex_match_def lit_def seqs_def never_def words_def some_pattern_def

lemmas validator_defs =
  ratingPattern_def streetSuffixTokens_def streetSuffixes_def improperPatterns_def
  isValidAddressLine_def
  cityPattern_def invalidPatterns_def isValidCity_def

lemma exec_from_Cls: "exec_from ic (Cls P) prev s = None \<longleftrightarrow> (\<forall>c\<in>set s. \<not> P c)"
proof (induction s arbitrary: prev)
  case Nil
  show ?case by simp
next
  case (Cons x xs)
  show ?case
  proof (cases "P x")
    case True
    then show ?thesis by simp
  next
    case False
    then have "exec_from ic (Cls P) prev (x # xs) = None \<longleftrightarrow>
               exec_from ic (Cls P) (Some x) xs = None"
      by (simp split: option.splits)
    with Cons False show ?thesis by simp
  qed
qed

lemma test_Cls: "regex_test ic (Cls P) s \<longleftrightarrow> (\<exists>c\<in>set s. P c)"
  by (simp add: regex_test_def regex_exec_def exec_from_Cls)

lemma trimEnd_Nil: "trimEnd s = [] \<Longrightarrow> \<forall>c\<in>set s. is_space c"
  by (simp add: trimEnd_def dropWhile_eq_Nil_conv)

lemma trim_Nil: "trim s = [] \<Longrightarrow> \<forall>c\<in>set s. is_space c"
proof -
  assume "trim s = []"
  then have a: "\<forall>c\<in>set (dropWhile is_space s). is_space c"
    using trimEnd_Nil [of "dropWhile is_space s"] by (simp add: trim_def)
  have "dropWhile is_space s = []"
  proof (rule ccontr)
    assume n: "dropWhile is_space s \<noteq> []"
    then have "\<not> is_space (hd (dropWhile is_space s))" by (rule hd_dropWhile)
    moreover from n have "hd (dropWhile is_space s) \<in> set (dropWhile is_space s)" by simp
    ultimately show False using a by blast
  qed
  then show ?thesis by (simp add: dropWhile_eq_Nil_conv)
qed

lemma digit_not_space: "is_digit c \<Longrightarrow> \<not> is_space c"
  by (auto simp: is_digit_def is_space_def)

lemma isValidAddressLine_iff:
  "isValidAddressLine (Some s) \<longleftrightarrow>
     (\<exists>c\<in>set s. is_digit c) \<and> regex_test True streetSuffixes s \<and>
     \<not> some_pattern improperPatterns s"
proof (cases "s = [] \<or> trim s = []")
  case True
  then have "\<forall>c\<in>set s. is_space c" using trim_Nil [of s] by auto
  then have "\<not> (\<exists>c\<in>set s. is_digit c)" using digit_not_space by blast
  with True show ?thesis by (auto simp: isValidAddressLine_def)
next
  case False
  then show ?thesis
    by (simp add: isValidAddressLine_def test_Cls)
qed

lemma exec_from_Bol_Some: "exec_from ic (Seq Bol r) (Some p) s = None"
  by (induction s arbitrary: p) auto

lemma exec_anchored:
  "exec_from ic (Seq Bol r) None s \<noteq> None \<longleftrightarrow> ends ic r (None, s) \<noteq> []"
  by (cases s) (auto simp: exec_from_Bol_Some split: list.splits)

lemma many1_full_only: "q \<in> set (many1 P s) \<Longrightarrow> snd q = [] \<Longrightarrow> \<forall>x\<in>set s. P x"
proof (induction s)
  case Nil
  then show ?case by simp
next
  case (Cons x xs)
  from Cons.prems(1) have px: "P x" by (cases "P x") simp_all
  with Cons.prems(1) have "q \<in> set (many1 P xs) \<or> q = (Some x, xs)" by auto
  then show ?case
  proof
    assume "q \<in> set (many1 P xs)"
    with Cons px show ?thesis by simp
  next
    assume "q = (Some x, xs)"
    with Cons.prems(2) px show ?thesis by simp
  qed
qed

lemma many1_full_if: "s \<noteq> [] \<Longrightarrow> \<forall>x\<in>set s. P x \<Longrightarrow> \<exists>q\<in>set (many1 P s). snd q = []"
proof (induction s)
  case Nil
  then show ?case by simp
next
  case (Cons x xs)
  show ?case
  proof (cases "xs = []")
    case True
    with Cons.prems show ?thesis by simp
  next
    case False
    with Cons have "\<exists>q\<in>set (many1 P xs). snd q = []" by simp
    with Cons.prems show ?thesis by auto
  qed
qed

lemma many1_full: "(\<exists>q\<in>set (many1 P s). snd q = []) \<longleftrightarrow> s \<noteq> [] \<and> (\<forall>x\<in>set s. P x)"
proof
  assume "\<exists>q\<in>set (many1 P s). snd q = []"
  then obtain q where q: "q \<in> set (many1 P s)" "snd q = []" by blast
  then have "\<forall>x\<in>set s. P x" by (rule many1_full_only)
  moreover from q(1) have "s \<noteq> []" by (cases s) auto
  ultimately show "s \<noteq> [] \<and> (\<forall>x\<in>set s. P x)" by simp
next
  assume "s \<noteq> [] \<and> (\<forall>x\<in>set s. P x)"
  then show "\<exists>q\<in>set (many1 P s). snd q = []" using many1_full_if [of s P] by simp
qed

lemma test_cityPattern:
  "regex_test False cityPattern c \<longleftrightarrow> c \<noteq> [] \<and> (\<forall>x\<in>set c. is_city_char x)"
proof -
  have "ends False (Seq (Many1 is_city_char) (Seq Eol Eps)) (None, c) \<noteq> [] \<longleftrightarrow>
        (\<exists>q\<in>set (many1 is_city_char c). snd q = [])"
    by auto
  then show ?thesis
    by (simp only: regex_test_def regex_exec_def cityPattern_def seqs_def foldr.simps o_apply
        id_apply exec_anchored many1_full)
qed

lemma test_starts_alpha:
  "regex_test False (seqs [Bol, Cls is_alpha]) c \<longleftrightarrow> c \<noteq> [] \<and> is_alpha (hd c)"
proof -
  have "ends False (Seq (Cls is_alpha) Eps) (None, c) \<noteq> [] \<longleftrightarrow> c \<noteq> [] \<and> is_alpha (hd c)"
    by (cases c) auto
  then show ?thesis
    by (simp only: regex_test_def regex_exec_def seqs_def foldr.simps o_apply id_apply
        exec_anchored)
qed

lemma isValidCity_iff:
  "isValidCity (Some s) \<longleftrightarrow>
     (let c = trim s in
        c \<noteq> [] \<and> 2 \<le> length c \<and> length c \<le> 50 \<and> (\<forall>x\<in>set c. is_city_char x) \<and>
        is_alpha (hd c) \<and> \<not> some_pattern invalidPatterns c)"
proof -
  have "trim [] = []" by (simp add: trim_def trimEnd_def)
  then show ?thesis
    by (auto simp: isValidCity_def Let_def test_cityPattern test_starts_alpha)
qed


text \<open>The test of the street-suffix pattern, in the words of the specification.\<close>

lemma exec_from_None:
  "exec_from ic r prev s = None \<longleftrightarrow>
   (\<forall>before rest. s = before @ rest \<longrightarrow> ends ic r (prev_of prev before, rest) = [])"
proof (induction s arbitrary: prev)
  case Nil
  show ?case by (auto simp: prev_of_def split: list.splits)
next
  case (Cons x xs)
  show ?case
  proof (cases "ends ic r (prev, x # xs)")
    case (Cons e es)
    then have "exec_from ic r prev (x # xs) \<noteq> None" by simp
    moreover have "x # xs = [] @ (x # xs) \<and> ends ic r (prev_of prev [], x # xs) \<noteq> []"
      using Cons by (simp add: prev_of_def)
    ultimately show ?thesis by blast
  next
    case Nil
    then have "exec_from ic r prev (x # xs) = None \<longleftrightarrow> exec_from ic r (Some x) xs = None"
      by (simp split: option.splits)
    also have "\<dots> \<longleftrightarrow>
        (\<forall>before rest. xs = before @ rest \<longrightarrow> ends ic r (prev_of (Some x) before, rest) = [])"
      by (rule Cons.IH)
    also have "\<dots> \<longleftrightarrow>
        (\<forall>before rest. x # xs = before @ rest \<longrightarrow> ends ic r (prev_of prev before, rest) = [])"
    proof
      assume a: "\<forall>before rest. xs = before @ rest \<longrightarrow> ends ic r (prev_of (Some x) before, rest) = []"
      show "\<forall>before rest. x # xs = before @ rest \<longrightarrow> ends ic r (prev_of prev before, rest) = []"
      proof (intro allI impI)
        fix before rest
        assume s: "x # xs = before @ rest"
        show "ends ic r (prev_of prev before, rest) = []"
        proof (cases before)
          case Nil
          with s \<open>ends ic r (prev, x # xs) = []\<close> show ?thesis by (simp add: prev_of_def)
        next
          case (Cons b bs)
          with s have "xs = bs @ rest" and "b = x" by simp_all
          moreover have "prev_of prev (b # bs) = prev_of (Some b) bs" by (simp add: prev_of_def)
          ultimately show ?thesis using a Cons by simp
        qed
      qed
    next
      assume a: "\<forall>before rest. x # xs = before @ rest \<longrightarrow> ends ic r (prev_of prev before, rest) = []"
      show "\<forall>before rest. xs = before @ rest \<longrightarrow> ends ic r (prev_of (Some x) before, rest) = []"
      proof (intro allI impI)
        fix before rest
        assume "xs = before @ rest"
        then have "x # xs = (x # before) @ rest" by simp
        with a have "ends ic r (prev_of prev (x # before), rest) = []" by blast
        moreover have "prev_of prev (x # before) = prev_of (Some x) before" by (simp add: prev_of_def)
        ultimately show "ends ic r (prev_of (Some x) before, rest) = []" by simp
      qed
    qed
    finally show ?thesis .
  qed
qed

lemma ends_lit:
  "q \<in> set (ends ic (lit t) (pv, xs)) \<longleftrightarrow>
   (\<exists>w rest. xs = w @ rest \<and> length w = length t \<and>
      list_all2 (\<lambda>c x. chr_eq ic (of_char c) x) t w \<and> q = (prev_of pv w, rest))"
proof (induction t arbitrary: pv xs)
  case Nil
  show ?case by (auto simp: lit_def prev_of_def)
next
  case (Cons c cs)
  have l: "lit (c # cs) = Seq (Chr (of_char c)) (lit cs)" by (simp add: lit_def)
  show ?case
  proof (cases xs)
    case Nil
    then show ?thesis by (simp add: l)
  next
    case (Cons x xs')
    show ?thesis
    proof (cases "chr_eq ic (of_char c) x")
      case False
      with Cons show ?thesis by (auto simp: l list_all2_Cons1)
    next
      case True
      have "q \<in> set (ends ic (lit (c # cs)) (pv, xs)) \<longleftrightarrow> q \<in> set (ends ic (lit cs) (Some x, xs'))"
        using True Cons by (simp add: l)
      also have "\<dots> \<longleftrightarrow> (\<exists>w rest. xs' = w @ rest \<and> length w = length cs \<and>
          list_all2 (\<lambda>c x. chr_eq ic (of_char c) x) cs w \<and> q = (prev_of (Some x) w, rest))"
        by (rule Cons.IH)
      also have "\<dots> \<longleftrightarrow> (\<exists>w rest. xs = w @ rest \<and> length w = length (c # cs) \<and>
          list_all2 (\<lambda>c x. chr_eq ic (of_char c) x) (c # cs) w \<and> q = (prev_of pv w, rest))"
      proof
        assume "\<exists>w rest. xs' = w @ rest \<and> length w = length cs \<and>
          list_all2 (\<lambda>c x. chr_eq ic (of_char c) x) cs w \<and> q = (prev_of (Some x) w, rest)"
        then obtain w rest where w: "xs' = w @ rest" "length w = length cs"
          "list_all2 (\<lambda>c x. chr_eq ic (of_char c) x) cs w" "q = (prev_of (Some x) w, rest)"
          by blast
        have "prev_of pv (x # w) = prev_of (Some x) w" by (simp add: prev_of_def)
        with w True Cons have "xs = (x # w) @ rest \<and> length (x # w) = length (c # cs) \<and>
          list_all2 (\<lambda>c x. chr_eq ic (of_char c) x) (c # cs) (x # w) \<and>
          q = (prev_of pv (x # w), rest)"
          by simp
        then show "\<exists>w rest. xs = w @ rest \<and> length w = length (c # cs) \<and>
          list_all2 (\<lambda>c x. chr_eq ic (of_char c) x) (c # cs) w \<and> q = (prev_of pv w, rest)"
          by blast
      next
        assume "\<exists>w rest. xs = w @ rest \<and> length w = length (c # cs) \<and>
          list_all2 (\<lambda>c x. chr_eq ic (of_char c) x) (c # cs) w \<and> q = (prev_of pv w, rest)"
        then obtain w rest where w: "xs = w @ rest" "length w = length (c # cs)"
          "list_all2 (\<lambda>c x. chr_eq ic (of_char c) x) (c # cs) w" "q = (prev_of pv w, rest)"
          by blast
        from w(2) obtain y w' where yw: "w = y # w'" by (cases w) auto
        with w Cons have "y = x" "xs' = w' @ rest" "length w' = length cs"
          "list_all2 (\<lambda>c x. chr_eq ic (of_char c) x) cs w'"
          by simp_all
        moreover have "prev_of pv (x # w') = prev_of (Some x) w'" by (simp add: prev_of_def)
        ultimately have "xs' = w' @ rest \<and> length w' = length cs \<and>
          list_all2 (\<lambda>c x. chr_eq ic (of_char c) x) cs w' \<and> q = (prev_of (Some x) w', rest)"
          using w(4) yw by simp
        then show "\<exists>w rest. xs' = w @ rest \<and> length w = length cs \<and>
          list_all2 (\<lambda>c x. chr_eq ic (of_char c) x) cs w \<and> q = (prev_of (Some x) w, rest)"
          by blast
      qed
      finally show ?thesis .
    qed
  qed
qed

lemma ends_words:
  "q \<in> set (ends ic (words ts) p) \<longleftrightarrow> (\<exists>t\<in>set ts. q \<in> set (ends ic (lit t) p))"
  by (induction ts) (auto simp: words_def never_def split: list.splits)


lemma is_word_canonicalize: "is_word (canonicalize c) = is_word c"
  by (auto simp: canonicalize_def is_word_def is_alpha_def is_lower_def is_upper_def is_digit_def)

lemma matches_token:
  "length w = length t \<and> list_all2 (\<lambda>c x. chr_eq True (of_char c) x) t w \<longleftrightarrow>
   map canonicalize w = map canonicalize (js t)"
proof
  assume a: "length w = length t \<and> list_all2 (\<lambda>c x. chr_eq True (of_char c) x) t w"
  show "map canonicalize w = map canonicalize (js t)"
  proof (rule nth_equalityI)
    from a show "length (map canonicalize w) = length (map canonicalize (js t))"
      by (simp add: js_def)
  next
    fix i
    assume "i < length (map canonicalize w)"
    with a have i: "i < length t" "i < length w" by simp_all
    from a have "list_all2 (\<lambda>c x. chr_eq True (of_char c) x) t w" ..
    from list_all2_nthD [OF this i(1)] have c: "canonicalize (w ! i) = canonicalize (of_char (t ! i))"
      by (simp only: chr_eq_def if_True)
    from i have "map canonicalize w ! i = canonicalize (w ! i)"
      and "map canonicalize (js t) ! i = canonicalize (of_char (t ! i))"
      by (simp_all only: js_def nth_map length_map)
    with c show "map canonicalize w ! i = map canonicalize (js t) ! i" by (simp only:)
  qed
next
  assume a: "map canonicalize w = map canonicalize (js t)"
  then have "length (map canonicalize w) = length (map canonicalize (js t))" by (rule arg_cong)
  then have l: "length w = length t" by (simp add: js_def)
  have "canonicalize (w ! i) = canonicalize (of_char (t ! i))" if "i < length t" for i
  proof -
    from a have "map canonicalize w ! i = map canonicalize (js t) ! i" by (rule arg_cong)
    with that l show ?thesis by (simp add: js_def)
  qed
  with l show "length w = length t \<and> list_all2 (\<lambda>c x. chr_eq True (of_char c) x) t w"
    by (simp add: list_all2_conv_all_nth chr_eq_def)
qed

lemma ends_token:
  "ends True (seqs [WordB, words ts, WordB]) (pv, xs) \<noteq> [] \<longleftrightarrow>
   at_word_boundary (pv, xs) \<and>
   (\<exists>t\<in>set ts. \<exists>w rest. xs = w @ rest \<and> map canonicalize w = map canonicalize (js t) \<and>
      at_word_boundary (prev_of pv w, rest))"
proof -
  have "ends True (seqs [WordB, words ts, WordB]) (pv, xs) \<noteq> [] \<longleftrightarrow>
      at_word_boundary (pv, xs) \<and>
      (\<exists>q\<in>set (ends True (words ts) (pv, xs)). at_word_boundary q)"
    by (auto simp: seqs_def)
  also have "(\<exists>q\<in>set (ends True (words ts) (pv, xs)). at_word_boundary q) \<longleftrightarrow>
      (\<exists>t\<in>set ts. \<exists>q. q \<in> set (ends True (lit t) (pv, xs)) \<and> at_word_boundary q)"
    using ends_words [of _ True ts "(pv, xs)"] by blast
  also have "\<dots> \<longleftrightarrow>
      (\<exists>t\<in>set ts. \<exists>w rest. xs = w @ rest \<and>
         (length w = length t \<and> list_all2 (\<lambda>c x. chr_eq True (of_char c) x) t w) \<and>
         at_word_boundary (prev_of pv w, rest))"
    unfolding ends_lit by blast
  finally show ?thesis unfolding matches_token .
qed

lemma token_boundaries:
  assumes t: "t \<noteq> []" "is_word (of_char (hd t))" "is_word (of_char (last t))"
    and w: "map canonicalize w = map canonicalize (js t)"
  shows "at_word_boundary (prev_of None before, w @ rest) \<longleftrightarrow>
           before = [] \<or> \<not> is_word (last before)"
    and "at_word_boundary (prev_of pv w, rest) \<longleftrightarrow> rest = [] \<or> \<not> is_word (hd rest)"
proof -
  from w have "length (map canonicalize w) = length (map canonicalize (js t))" by (rule arg_cong)
  with t(1) have ne: "w \<noteq> []" by (auto simp: js_def)
  from w have "hd (map canonicalize w) = hd (map canonicalize (js t))" by (rule arg_cong)
  with ne t(1) have "canonicalize (hd w) = canonicalize (of_char (hd t))"
    by (simp add: hd_map js_def)
  then have "is_word (canonicalize (hd w)) = is_word (canonicalize (of_char (hd t)))" by simp
  with t(2) have h: "is_word (hd w)" by (simp add: is_word_canonicalize)
  from w have "last (map canonicalize w) = last (map canonicalize (js t))" by (rule arg_cong)
  with ne t(1) have "canonicalize (last w) = canonicalize (of_char (last t))"
    by (simp add: last_map js_def)
  then have "is_word (canonicalize (last w)) = is_word (canonicalize (of_char (last t)))" by simp
  with t(3) have l: "is_word (last w)" by (simp add: is_word_canonicalize)
  from ne h show "at_word_boundary (prev_of None before, w @ rest) \<longleftrightarrow>
      before = [] \<or> \<not> is_word (last before)"
    by (cases w) (auto simp: at_word_boundary_def prev_of_def)
  from ne l show "at_word_boundary (prev_of pv w, rest) \<longleftrightarrow> rest = [] \<or> \<not> is_word (hd rest)"
    by (cases rest) (auto simp: at_word_boundary_def prev_of_def)
qed

lemma test_token:
  assumes "\<forall>t\<in>set ts. t \<noteq> [] \<and> is_word (of_char (hd t)) \<and> is_word (of_char (last t))"
  shows "regex_test True (seqs [WordB, words ts, WordB]) s \<longleftrightarrow> containsToken ts s"
proof
  assume "regex_test True (seqs [WordB, words ts, WordB]) s"
  then obtain before rest where s: "s = before @ rest"
    and e: "ends True (seqs [WordB, words ts, WordB]) (prev_of None before, rest) \<noteq> []"
    by (auto simp: regex_test_def regex_exec_def exec_from_None)
  from e obtain t w after where b: "at_word_boundary (prev_of None before, rest)"
    and t: "t \<in> set ts" and r: "rest = w @ after"
    and w: "map canonicalize w = map canonicalize (js t)"
    and a: "at_word_boundary (prev_of (prev_of None before) w, after)"
    unfolding ends_token by blast
  from assms t have tt: "t \<noteq> []" "is_word (of_char (hd t))" "is_word (of_char (last t))"
    by auto
  from b r have "before = [] \<or> \<not> is_word (last before)"
    using token_boundaries(1) [OF tt w] by simp
  moreover from a have "after = [] \<or> \<not> is_word (hd after)"
    using token_boundaries(2) [OF tt w] by simp
  ultimately show "containsToken ts s"
    unfolding containsToken_def using s r t w by blast
next
  assume "containsToken ts s"
  then obtain before w after t where s: "s = before @ w @ after" and t: "t \<in> set ts"
    and w: "map canonicalize w = map canonicalize (js t)"
    and b: "before = [] \<or> \<not> is_word (last before)"
    and a: "after = [] \<or> \<not> is_word (hd after)"
    unfolding containsToken_def by blast
  from assms t have tt: "t \<noteq> []" "is_word (of_char (hd t))" "is_word (of_char (last t))"
    by auto
  from b have "at_word_boundary (prev_of None before, w @ after)"
    using token_boundaries(1) [OF tt w] by simp
  moreover from a have "at_word_boundary (prev_of (prev_of None before) w, after)"
    using token_boundaries(2) [OF tt w] by simp
  ultimately have "ends True (seqs [WordB, words ts, WordB]) (prev_of None before, w @ after) \<noteq> []"
    unfolding ends_token using t w by blast
  with s show "regex_test True (seqs [WordB, words ts, WordB]) s"
    by (auto simp: regex_test_def regex_exec_def exec_from_None)
qed

lemma streetSuffixTokens_word:
  "\<forall>t\<in>set streetSuffixTokens. t \<noteq> [] \<and> is_word (of_char (hd t)) \<and> is_word (of_char (last t))"
  by (simp add: streetSuffixTokens_def class_defs)

lemma test_streetSuffixes:
  "regex_test True streetSuffixes s \<longleftrightarrow> containsToken streetSuffixTokens s"
  unfolding streetSuffixes_def by (rule test_token [OF streetSuffixTokens_word])

text \<open>
  C7. An address line is valid exactly when it contains a digit, contains a token of the
  street-suffix set (in any case, with no word character next to it), and none of the
  improper patterns matches; the guard on an empty or blank line changes nothing, since
  such a line has no digit. The three examples of the specification are evaluated.
\<close>

theorem isValidAddressLine_spec:
  "(isValidAddressLine (Some s) \<longleftrightarrow>
      (\<exists>c\<in>set s. is_digit c) \<and> containsToken streetSuffixTokens s \<and>
      \<not> some_pattern improperPatterns s) \<and>
   isValidAddressLine (Some (js ''123 Main St'')) \<and>
   \<not> isValidAddressLine (Some (js ''4.2(318) Hotel'')) \<and>
   \<not> isValidAddressLine (Some (js []))"
proof -
  have "isValidAddressLine (Some (js ''123 Main St''))"
    by (simp add: validator_defs regex_defs class_defs normalizer_defs)
  moreover have "\<not> isValidAddressLine (Some (js ''4.2(318) Hotel''))"
    by (simp add: validator_defs regex_defs class_defs normalizer_defs)
  moreover have "\<not> isValidAddressLine (Some (js []))"
    by (simp add: isValidAddressLine_def js_def)
  ultimately show ?thesis
    using isValidAddressLine_iff [of s] test_streetSuffixes [of s] by blast
qed

theorem isValidAddressLine_spec_witness:
  "isValidAddressLine (Some (js ''9 Elm Rd'')) \<and> containsToken streetSuffixTokens (js ''9 Elm Rd'') \<and>
   \<not> isValidAddressLine (Some (js ''9 Elm Inn Rd''))"
proof -
  have "isValidAddressLine (Some (js ''9 Elm Rd''))"
    by (simp add: validator_defs regex_defs class_defs normalizer_defs)
  moreover have "some_pattern improperPatterns (js ''9 Elm Inn Rd'')"
    by (simp add: validator_defs regex_defs class_defs normalizer_defs)
  ultimately show ?thesis
    using isValidAddressLine_spec [of "js ''9 Elm Rd''"]
      isValidAddressLine_spec [of "js ''9 Elm Inn Rd''"] by blast
qed

text \<open>
  C8. A city is valid exactly when, trimmed, it is not empty, has between 2 and 50 code
  units, consists of letters, white space (the class \<^verbatim>\<open>\s\<close>), apostrophes, hyphens and
  periods only, starts with a letter, and matches none of the invalid patterns. The three
  examples of the specification are evaluated.
\<close>

theorem isValidCity_spec:
  "(isValidCity (Some s) \<longleftrightarrow>
      trim s \<noteq> [] \<and> 2 \<le> length (trim s) \<and> length (trim s) \<le> 50 \<and>
      list_all is_city_char (trim s) \<and> is_alpha (hd (trim s)) \<and>
      \<not> some_pattern invalidPatterns (trim s)) \<and>
   isValidCity (Some (js ''Springfield'')) \<and>
   \<not> isValidCity (Some (js ''90210'')) \<and>
   \<not> isValidCity (Some (js ''Unknown''))"
proof -
  have "isValidCity (Some (js ''Springfield''))"
    by (simp add: validator_defs regex_defs class_defs normalizer_defs)
  moreover have "\<not> isValidCity (Some (js ''90210''))"
    by (simp add: validator_defs regex_defs class_defs normalizer_defs)
  moreover have "\<not> isValidCity (Some (js ''Unknown''))"
    by (simp add: validator_defs regex_defs class_defs normalizer_defs)
  ultimately show ?thesis using isValidCity_iff [of s] by (simp add: Let_def list_all_iff)
qed

theorem isValidCity_spec_witness:
  "isValidCity (Some (js '' St. Paul '')) \<and> \<not> isValidCity (Some (js ''X''))"
proof -
  have t: "trim (js '' St. Paul '') = js ''St. Paul''"
    by (simp add: normalizer_defs class_defs)
  have "2 \<le> length (js ''St. Paul'') \<and> length (js ''St. Paul'') \<le> 50 \<and>
      list_all is_city_char (js ''St. Paul'') \<and> is_alpha (hd (js ''St. Paul'')) \<and>
      \<not> some_pattern invalidPatterns (js ''St. Paul'')"
    by (simp add: validator_defs regex_defs class_defs normalizer_defs)
  moreover have "js ''St. Paul'' \<noteq> []" by (simp add: js_def)
  moreover have "length (trim (js ''X'')) = 1" by (simp add: normalizer_defs class_defs)
  ultimately show ?thesis
    using isValidCity_spec [of "js '' St. Paul ''"] isValidCity_spec [of "js ''X''"]
    by (simp add: t)
qed

section \<open>Properties of the address parser\<close>

lemmas parser_defs = stateZipPattern_def streetPattern_def parseAddress_def

text \<open>Where a match of the state and zip pattern ends, nothing of the text remains.\<close>

lemma exec_from_end:
  "exec_from ic r prev s = Some (before, after) \<Longrightarrow>
   \<exists>p e. e \<in> set (ends ic r p) \<and> after = snd e"
proof (induction s arbitrary: prev before)
  case Nil
  then obtain e es where "ends ic r (prev, []) = e # es" and "after = snd e"
    by (auto split: list.splits)
  then have "e \<in> set (ends ic r (prev, [])) \<and> after = snd e" by simp
  then show ?case by blast
next
  case (Cons x xs)
  show ?case
  proof (cases "ends ic r (prev, x # xs)")
    case Nil
    with Cons.prems obtain b where "exec_from ic r (Some x) xs = Some (b, after)"
      by (auto split: option.splits)
    then show ?thesis by (rule Cons.IH)
  next
    case (Cons e es)
    with Cons.prems have "e \<in> set (ends ic r (prev, x # xs)) \<and> after = snd e" by auto
    then show ?thesis by blast
  qed
qed

lemma Seq_final:
  assumes "\<And>p q. q \<in> set (ends ic b p) \<Longrightarrow> snd q = []"
    and "q \<in> set (ends ic (Seq a b) p)"
  shows "snd q = []"
proof -
  from assms(2) obtain q' where "q \<in> set (ends ic b q')" by auto
  then show ?thesis by (rule assms(1))
qed

lemma Eol_final: "q \<in> set (ends ic (Seq Eol Eps) p) \<Longrightarrow> snd q = []"
  by (auto split: if_splits)

lemma stateZipPattern_final: "q \<in> set (ends ic stateZipPattern p) \<Longrightarrow> snd q = []"
  unfolding stateZipPattern_def seqs_def foldr.simps o_apply id_apply
  by (erule Eol_final | erule Seq_final [rotated])+

text \<open>
  What a pattern accepts, read off its structure: the positions a run of a class can end
  at, and when a sequence of patterns has a match at a position.
\<close>

lemma many1_mem:
  "q \<in> set (many1 P xs) \<longleftrightarrow>
   (\<exists>w rest. xs = w @ rest \<and> w \<noteq> [] \<and> list_all P w \<and> q = (Some (last w), rest))"
proof (induction xs)
  case Nil
  show ?case by simp
next
  case (Cons x xs)
  show ?case
  proof (cases "P x")
    case False
    have "\<not> (\<exists>w rest. x # xs = w @ rest \<and> w \<noteq> [] \<and> list_all P w \<and> q = (Some (last w), rest))"
    proof
      assume "\<exists>w rest. x # xs = w @ rest \<and> w \<noteq> [] \<and> list_all P w \<and> q = (Some (last w), rest)"
      then obtain w rest where w: "x # xs = w @ rest" "w \<noteq> []" "list_all P w" by blast
      then obtain y w' where "w = y # w'" by (cases w) auto
      with w have "P x" by simp
      with False show False ..
    qed
    with False show ?thesis by simp
  next
    case True
    have "q \<in> set (many1 P (x # xs)) \<longleftrightarrow> q \<in> set (many1 P xs) \<or> q = (Some x, xs)"
      using True by auto
    also have "\<dots> \<longleftrightarrow>
        (\<exists>w rest. xs = w @ rest \<and> w \<noteq> [] \<and> list_all P w \<and> q = (Some (last w), rest)) \<or>
        q = (Some x, xs)"
      by (simp only: Cons.IH)
    also have "\<dots> \<longleftrightarrow>
        (\<exists>w rest. x # xs = w @ rest \<and> w \<noteq> [] \<and> list_all P w \<and> q = (Some (last w), rest))"
    proof
      assume "(\<exists>w rest. xs = w @ rest \<and> w \<noteq> [] \<and> list_all P w \<and> q = (Some (last w), rest)) \<or>
        q = (Some x, xs)"
      then show "\<exists>w rest. x # xs = w @ rest \<and> w \<noteq> [] \<and> list_all P w \<and> q = (Some (last w), rest)"
      proof
        assume "\<exists>w rest. xs = w @ rest \<and> w \<noteq> [] \<and> list_all P w \<and> q = (Some (last w), rest)"
        then obtain w rest where "xs = w @ rest" "w \<noteq> []" "list_all P w" "q = (Some (last w), rest)"
          by blast
        with True have "x # xs = (x # w) @ rest \<and> x # w \<noteq> [] \<and> list_all P (x # w) \<and>
          q = (Some (last (x # w)), rest)"
          by simp
        then show ?thesis by blast
      next
        assume "q = (Some x, xs)"
        with True have "x # xs = [x] @ xs \<and> [x] \<noteq> [] \<and> list_all P [x] \<and> q = (Some (last [x]), xs)"
          by simp
        then show ?thesis by blast
      qed
    next
      assume "\<exists>w rest. x # xs = w @ rest \<and> w \<noteq> [] \<and> list_all P w \<and> q = (Some (last w), rest)"
      then obtain w rest where w: "x # xs = w @ rest" "w \<noteq> []" "list_all P w"
        "q = (Some (last w), rest)"
        by blast
      then obtain y w' where yw: "w = y # w'" by (cases w) auto
      show "(\<exists>w rest. xs = w @ rest \<and> w \<noteq> [] \<and> list_all P w \<and> q = (Some (last w), rest)) \<or>
        q = (Some x, xs)"
      proof (cases "w' = []")
        case True
        with w yw have "q = (Some x, xs)" by simp
        then show ?thesis ..
      next
        case False
        with w yw have "xs = w' @ rest \<and> w' \<noteq> [] \<and> list_all P w' \<and> q = (Some (last w'), rest)"
          by simp
        then show ?thesis by blast
      qed
    qed
    finally show ?thesis .
  qed
qed

lemma many0_mem:
  "q \<in> set (ends ic (Many0 P) (pv, xs)) \<longleftrightarrow>
   (\<exists>w rest. xs = w @ rest \<and> list_all P w \<and> q = (prev_of pv w, rest))"
proof
  assume "q \<in> set (ends ic (Many0 P) (pv, xs))"
  then have "q \<in> set (many1 P xs) \<or> q = (pv, xs)" by auto
  then show "\<exists>w rest. xs = w @ rest \<and> list_all P w \<and> q = (prev_of pv w, rest)"
  proof
    assume "q \<in> set (many1 P xs)"
    then obtain w rest where "xs = w @ rest" "w \<noteq> []" "list_all P w" "q = (Some (last w), rest)"
      unfolding many1_mem by blast
    then have "xs = w @ rest \<and> list_all P w \<and> q = (prev_of pv w, rest)"
      by (simp add: prev_of_def)
    then show ?thesis by blast
  next
    assume "q = (pv, xs)"
    then have "xs = [] @ xs \<and> list_all P [] \<and> q = (prev_of pv [], xs)" by (simp add: prev_of_def)
    then show ?thesis by blast
  qed
next
  assume "\<exists>w rest. xs = w @ rest \<and> list_all P w \<and> q = (prev_of pv w, rest)"
  then obtain w rest where w: "xs = w @ rest" "list_all P w" "q = (prev_of pv w, rest)" by blast
  show "q \<in> set (ends ic (Many0 P) (pv, xs))"
  proof (cases "w = []")
    case True
    with w show ?thesis by (simp add: prev_of_def)
  next
    case False
    with w have "q \<in> set (many1 P xs)" unfolding many1_mem by (auto simp: prev_of_def)
    then show ?thesis by simp
  qed
qed

lemma cls_mem:
  "q \<in> set (ends ic (Cls P) (pv, xs)) \<longleftrightarrow> (\<exists>x rest. xs = x # rest \<and> P x \<and> q = (Some x, rest))"
  by (cases xs) auto

lemma seq_mem:
  "q \<in> set (ends ic (Seq a b) p) \<longleftrightarrow> (\<exists>m. m \<in> set (ends ic a p) \<and> q \<in> set (ends ic b m))"
  by auto

lemma nonempty_mem: "xs \<noteq> [] \<longleftrightarrow> (\<exists>q. q \<in> set xs)"
  by (cases xs) auto

lemma accepts_final:
  "ends ic (Seq (Many0 P) (Seq Eol Eps)) (pv, xs) \<noteq> [] \<longleftrightarrow> list_all P xs"
proof
  assume "ends ic (Seq (Many0 P) (Seq Eol Eps)) (pv, xs) \<noteq> []"
  then obtain q where "q \<in> set (ends ic (Seq (Many0 P) (Seq Eol Eps)) (pv, xs))"
    unfolding nonempty_mem ..
  then obtain m where m: "m \<in> set (ends ic (Many0 P) (pv, xs))"
    and q: "q \<in> set (ends ic (Seq Eol Eps) m)"
    unfolding seq_mem [of _ ic "Many0 P"] by blast
  from q have "snd m = []" by (auto split: if_splits)
  moreover from m obtain w rest where "xs = w @ rest" "list_all P w" "m = (prev_of pv w, rest)"
    unfolding many0_mem by blast
  ultimately show "list_all P xs" by simp
next
  assume "list_all P xs"
  then have "xs = xs @ [] \<and> list_all P xs \<and> (prev_of pv xs, []) = (prev_of pv xs, [])" by simp
  then have "(prev_of pv xs, []) \<in> set (ends ic (Many0 P) (pv, xs))"
    unfolding many0_mem by blast
  moreover have "(prev_of pv xs, []) \<in> set (ends ic (Seq Eol Eps) (prev_of pv xs, []))" by simp
  ultimately have "\<exists>q. q \<in> set (ends ic (Seq (Many0 P) (Seq Eol Eps)) (pv, xs))"
    unfolding seq_mem [of _ ic "Many0 P"] by blast
  then show "ends ic (Seq (Many0 P) (Seq Eol Eps)) (pv, xs) \<noteq> []"
    unfolding nonempty_mem .
qed

lemma accepts_Seq:
  "ends ic (Seq a b) p \<noteq> [] \<longleftrightarrow> (\<exists>m. m \<in> set (ends ic a p) \<and> ends ic b m \<noteq> [])"
proof
  assume "ends ic (Seq a b) p \<noteq> []"
  then obtain q where "q \<in> set (ends ic (Seq a b) p)" unfolding nonempty_mem ..
  then obtain m where "m \<in> set (ends ic a p)" and "q \<in> set (ends ic b m)"
    unfolding seq_mem by blast
  then have "m \<in> set (ends ic a p) \<and> ends ic b m \<noteq> []" unfolding nonempty_mem by blast
  then show "\<exists>m. m \<in> set (ends ic a p) \<and> ends ic b m \<noteq> []" ..
next
  assume "\<exists>m. m \<in> set (ends ic a p) \<and> ends ic b m \<noteq> []"
  then obtain m where m: "m \<in> set (ends ic a p)" and "ends ic b m \<noteq> []" by blast
  then obtain q where "q \<in> set (ends ic b m)" unfolding nonempty_mem by blast
  with m have "q \<in> set (ends ic (Seq a b) p)" unfolding seq_mem by blast
  then show "ends ic (Seq a b) p \<noteq> []" unfolding nonempty_mem ..
qed

lemma accepts_Cls:
  "ends ic (Seq (Cls P) r) (pv, xs) \<noteq> [] \<longleftrightarrow>
   (\<exists>x rest. xs = x # rest \<and> P x \<and> ends ic r (Some x, rest) \<noteq> [])"
proof
  assume "ends ic (Seq (Cls P) r) (pv, xs) \<noteq> []"
  then obtain m where "m \<in> set (ends ic (Cls P) (pv, xs))" and r: "ends ic r m \<noteq> []"
    unfolding accepts_Seq by blast
  then obtain x rest where "xs = x # rest" "P x" "m = (Some x, rest)" unfolding cls_mem by blast
  with r have "xs = x # rest \<and> P x \<and> ends ic r (Some x, rest) \<noteq> []" by simp
  then show "\<exists>x rest. xs = x # rest \<and> P x \<and> ends ic r (Some x, rest) \<noteq> []" by blast
next
  assume "\<exists>x rest. xs = x # rest \<and> P x \<and> ends ic r (Some x, rest) \<noteq> []"
  then obtain x rest where "xs = x # rest" "P x" and r: "ends ic r (Some x, rest) \<noteq> []" by blast
  then have "(Some x, rest) \<in> set (ends ic (Cls P) (pv, xs))" by simp
  with r show "ends ic (Seq (Cls P) r) (pv, xs) \<noteq> []" unfolding accepts_Seq by blast
qed

lemma accepts_Many1:
  "ends ic (Seq (Many1 P) r) (pv, xs) \<noteq> [] \<longleftrightarrow>
   (\<exists>w rest. xs = w @ rest \<and> w \<noteq> [] \<and> list_all P w \<and> ends ic r (Some (last w), rest) \<noteq> [])"
proof
  assume "ends ic (Seq (Many1 P) r) (pv, xs) \<noteq> []"
  then obtain m where "m \<in> set (ends ic (Many1 P) (pv, xs))" and r: "ends ic r m \<noteq> []"
    unfolding accepts_Seq by blast
  then have "m \<in> set (many1 P xs)" by simp
  then obtain w rest where "xs = w @ rest" "w \<noteq> []" "list_all P w" "m = (Some (last w), rest)"
    unfolding many1_mem by blast
  with r have "xs = w @ rest \<and> w \<noteq> [] \<and> list_all P w \<and> ends ic r (Some (last w), rest) \<noteq> []"
    by simp
  then show "\<exists>w rest. xs = w @ rest \<and> w \<noteq> [] \<and> list_all P w \<and>
      ends ic r (Some (last w), rest) \<noteq> []"
    by blast
next
  assume "\<exists>w rest. xs = w @ rest \<and> w \<noteq> [] \<and> list_all P w \<and> ends ic r (Some (last w), rest) \<noteq> []"
  then obtain w rest where w: "xs = w @ rest" "w \<noteq> []" "list_all P w"
    and r: "ends ic r (Some (last w), rest) \<noteq> []"
    by blast
  from w have "(Some (last w), rest) \<in> set (many1 P xs)" unfolding many1_mem by blast
  then have "(Some (last w), rest) \<in> set (ends ic (Many1 P) (pv, xs))" by simp
  with r show "ends ic (Seq (Many1 P) r) (pv, xs) \<noteq> []" unfolding accepts_Seq by blast
qed

text \<open>Two and five code units of a class in a row.\<close>

lemma accepts_Cls2:
  "ends ic (Seq (Cls P) (Seq (Cls P) r)) (pv, xs) \<noteq> [] \<longleftrightarrow>
   (\<exists>w rest. xs = w @ rest \<and> length w = 2 \<and> list_all P w \<and>
      ends ic r (Some (last w), rest) \<noteq> [])"
proof
  assume "ends ic (Seq (Cls P) (Seq (Cls P) r)) (pv, xs) \<noteq> []"
  then obtain x y rest where "xs = x # y # rest" "P x" "P y" "ends ic r (Some y, rest) \<noteq> []"
    unfolding accepts_Cls by blast
  then have "xs = [x, y] @ rest \<and> length [x, y] = 2 \<and> list_all P [x, y] \<and>
      ends ic r (Some (last [x, y]), rest) \<noteq> []"
    by simp
  then show "\<exists>w rest. xs = w @ rest \<and> length w = 2 \<and> list_all P w \<and>
      ends ic r (Some (last w), rest) \<noteq> []"
    by blast
next
  assume "\<exists>w rest. xs = w @ rest \<and> length w = 2 \<and> list_all P w \<and>
      ends ic r (Some (last w), rest) \<noteq> []"
  then obtain w rest where w: "xs = w @ rest" "length w = 2" "list_all P w"
    and r: "ends ic r (Some (last w), rest) \<noteq> []"
    by blast
  from w(2) obtain x y where "w = [x, y]"
    by (auto simp: eval_nat_numeral length_Suc_conv)
  with w r have "xs = x # y # rest" "P x" "P y" "ends ic r (Some y, rest) \<noteq> []" by simp_all
  then show "ends ic (Seq (Cls P) (Seq (Cls P) r)) (pv, xs) \<noteq> []"
    unfolding accepts_Cls by blast
qed

lemma accepts_Cls5:
  "ends ic (Seq (Cls P) (Seq (Cls P) (Seq (Cls P) (Seq (Cls P) (Seq (Cls P) r))))) (pv, xs) \<noteq> []
   \<longleftrightarrow>
   (\<exists>w rest. xs = w @ rest \<and> length w = 5 \<and> list_all P w \<and>
      ends ic r (Some (last w), rest) \<noteq> [])"
proof
  assume "ends ic (Seq (Cls P) (Seq (Cls P) (Seq (Cls P) (Seq (Cls P) (Seq (Cls P) r)))))
      (pv, xs) \<noteq> []"
  then obtain a as where a: "xs = a # as" "P a"
    and "ends ic (Seq (Cls P) (Seq (Cls P) (Seq (Cls P) (Seq (Cls P) r)))) (Some a, as) \<noteq> []"
    unfolding accepts_Cls [of ic P "Seq (Cls P) (Seq (Cls P) (Seq (Cls P) (Seq (Cls P) r)))"]
    by blast
  then obtain b bs where b: "as = b # bs" "P b"
    and "ends ic (Seq (Cls P) (Seq (Cls P) (Seq (Cls P) r))) (Some b, bs) \<noteq> []"
    unfolding accepts_Cls [of ic P "Seq (Cls P) (Seq (Cls P) (Seq (Cls P) r))"] by blast
  then obtain c cs where c: "bs = c # cs" "P c"
    and "ends ic (Seq (Cls P) (Seq (Cls P) r)) (Some c, cs) \<noteq> []"
    unfolding accepts_Cls [of ic P "Seq (Cls P) (Seq (Cls P) r)"] by blast
  then obtain d ds where d: "cs = d # ds" "P d"
    and "ends ic (Seq (Cls P) r) (Some d, ds) \<noteq> []"
    unfolding accepts_Cls [of ic P "Seq (Cls P) r"] by blast
  then obtain e es where e: "ds = e # es" "P e" and "ends ic r (Some e, es) \<noteq> []"
    unfolding accepts_Cls [of ic P r] by blast
  with a b c d have "xs = [a, b, c, d, e] @ es \<and> length [a, b, c, d, e] = 5 \<and>
      list_all P [a, b, c, d, e] \<and> ends ic r (Some (last [a, b, c, d, e]), es) \<noteq> []"
    by simp
  then show "\<exists>w rest. xs = w @ rest \<and> length w = 5 \<and> list_all P w \<and>
      ends ic r (Some (last w), rest) \<noteq> []"
    by blast
next
  assume "\<exists>w rest. xs = w @ rest \<and> length w = 5 \<and> list_all P w \<and>
      ends ic r (Some (last w), rest) \<noteq> []"
  then obtain w rest where w: "xs = w @ rest" "length w = 5" "list_all P w"
    and r: "ends ic r (Some (last w), rest) \<noteq> []"
    by blast
  from w(2) obtain a b c d e where "w = [a, b, c, d, e]"
    by (auto simp: eval_nat_numeral length_Suc_conv)
  with w r have x: "xs = a # b # c # d # e # rest" and p: "P a" "P b" "P c" "P d" "P e"
    and r': "ends ic r (Some e, rest) \<noteq> []"
    by simp_all
  from p(5) r' have "ends ic (Seq (Cls P) r) (Some d, e # rest) \<noteq> []"
    unfolding accepts_Cls [of ic P r] by blast
  with p(4) have "ends ic (Seq (Cls P) (Seq (Cls P) r)) (Some c, d # e # rest) \<noteq> []"
    unfolding accepts_Cls [of ic P "Seq (Cls P) r"] by blast
  with p(3) have "ends ic (Seq (Cls P) (Seq (Cls P) (Seq (Cls P) r))) (Some b, c # d # e # rest) \<noteq> []"
    unfolding accepts_Cls [of ic P "Seq (Cls P) (Seq (Cls P) r)"] by blast
  with p(2) have "ends ic (Seq (Cls P) (Seq (Cls P) (Seq (Cls P) (Seq (Cls P) r))))
      (Some a, b # c # d # e # rest) \<noteq> []"
    unfolding accepts_Cls [of ic P "Seq (Cls P) (Seq (Cls P) (Seq (Cls P) r))"] by blast
  with p(1) x show "ends ic (Seq (Cls P) (Seq (Cls P) (Seq (Cls P) (Seq (Cls P) (Seq (Cls P) r)))))
      (pv, xs) \<noteq> []"
    unfolding accepts_Cls [of ic P "Seq (Cls P) (Seq (Cls P) (Seq (Cls P) (Seq (Cls P) r)))"]
    by blast
qed

lemma stateZipPattern_accepts:
  "ends ic stateZipPattern (pv, xs) \<noteq> [] \<longleftrightarrow> stateZipSuffix xs"
proof -
  have "ends ic stateZipPattern (pv, xs) \<noteq> [] \<longleftrightarrow>
      (\<exists>sp1 r1. xs = sp1 @ r1 \<and> sp1 \<noteq> [] \<and> list_all is_space sp1 \<and>
        (\<exists>st r2. r1 = st @ r2 \<and> length st = 2 \<and> list_all is_upper st \<and>
          (\<exists>sp2 r3. r2 = sp2 @ r3 \<and> sp2 \<noteq> [] \<and> list_all is_space sp2 \<and>
            (\<exists>zip r4. r3 = zip @ r4 \<and> length zip = 5 \<and> list_all is_digit zip \<and>
               list_all is_dot r4))))"
    unfolding stateZipPattern_def seqs_def foldr.simps o_apply id_apply
    by (simp only: accepts_Many1 accepts_Cls2 [where P = is_upper] accepts_Cls5 accepts_final)
  also have "\<dots> \<longleftrightarrow> stateZipSuffix xs"
    unfolding stateZipSuffix_def
  proof
    assume "\<exists>sp1 r1. xs = sp1 @ r1 \<and> sp1 \<noteq> [] \<and> list_all is_space sp1 \<and>
        (\<exists>st r2. r1 = st @ r2 \<and> length st = 2 \<and> list_all is_upper st \<and>
          (\<exists>sp2 r3. r2 = sp2 @ r3 \<and> sp2 \<noteq> [] \<and> list_all is_space sp2 \<and>
            (\<exists>zip r4. r3 = zip @ r4 \<and> length zip = 5 \<and> list_all is_digit zip \<and>
               list_all is_dot r4)))"
    then obtain sp1 r1 where 1: "xs = sp1 @ r1" "sp1 \<noteq> []" "list_all is_space sp1"
      and "\<exists>st r2. r1 = st @ r2 \<and> length st = 2 \<and> list_all is_upper st \<and>
          (\<exists>sp2 r3. r2 = sp2 @ r3 \<and> sp2 \<noteq> [] \<and> list_all is_space sp2 \<and>
            (\<exists>zip r4. r3 = zip @ r4 \<and> length zip = 5 \<and> list_all is_digit zip \<and>
               list_all is_dot r4))"
      by blast
    then obtain st r2 where 2: "r1 = st @ r2" "length st = 2" "list_all is_upper st"
      and "\<exists>sp2 r3. r2 = sp2 @ r3 \<and> sp2 \<noteq> [] \<and> list_all is_space sp2 \<and>
            (\<exists>zip r4. r3 = zip @ r4 \<and> length zip = 5 \<and> list_all is_digit zip \<and>
               list_all is_dot r4)"
      by blast
    then obtain sp2 r3 where 3: "r2 = sp2 @ r3" "sp2 \<noteq> []" "list_all is_space sp2"
      and "\<exists>zip r4. r3 = zip @ r4 \<and> length zip = 5 \<and> list_all is_digit zip \<and>
               list_all is_dot r4"
      by blast
    then obtain zip r4 where 4: "r3 = zip @ r4" "length zip = 5" "list_all is_digit zip"
      "list_all is_dot r4"
      by blast
    from 1(1) 2(1) 3(1) 4(1) have "xs = sp1 @ st @ sp2 @ zip @ r4" by simp
    with 1 2 3 4 have "xs = sp1 @ st @ sp2 @ zip @ r4 \<and>
        sp1 \<noteq> [] \<and> list_all is_space sp1 \<and> length st = 2 \<and> list_all is_upper st \<and>
        sp2 \<noteq> [] \<and> list_all is_space sp2 \<and> length zip = 5 \<and> list_all is_digit zip \<and>
        list_all is_dot r4"
      by (intro conjI)
    then show "\<exists>sp1 st sp2 zip rest. xs = sp1 @ st @ sp2 @ zip @ rest \<and>
        sp1 \<noteq> [] \<and> list_all is_space sp1 \<and> length st = 2 \<and> list_all is_upper st \<and>
        sp2 \<noteq> [] \<and> list_all is_space sp2 \<and> length zip = 5 \<and> list_all is_digit zip \<and>
        list_all is_dot rest"
      by (intro exI)
  next
    assume "\<exists>sp1 st sp2 zip rest. xs = sp1 @ st @ sp2 @ zip @ rest \<and>
        sp1 \<noteq> [] \<and> list_all is_space sp1 \<and> length st = 2 \<and> list_all is_upper st \<and>
        sp2 \<noteq> [] \<and> list_all is_space sp2 \<and> length zip = 5 \<and> list_all is_digit zip \<and>
        list_all is_dot rest"
    then obtain sp1 st sp2 zip rest where x: "xs = sp1 @ st @ sp2 @ zip @ rest"
      and 1: "sp1 \<noteq> []" "list_all is_space sp1"
      and 2: "length st = 2" "list_all is_upper st"
      and 3: "sp2 \<noteq> []" "list_all is_space sp2"
      and 4: "length zip = 5" "list_all is_digit zip" "list_all is_dot rest"
      by (elim exE conjE)
    from 4 have "\<exists>z r4. zip @ rest = z @ r4 \<and> length z = 5 \<and> list_all is_digit z \<and>
        list_all is_dot r4"
      by blast
    with 3 have "\<exists>sp r3. sp2 @ zip @ rest = sp @ r3 \<and> sp \<noteq> [] \<and> list_all is_space sp \<and>
        (\<exists>z r4. r3 = z @ r4 \<and> length z = 5 \<and> list_all is_digit z \<and> list_all is_dot r4)"
      by blast
    with 2 have "\<exists>s r2. st @ sp2 @ zip @ rest = s @ r2 \<and> length s = 2 \<and> list_all is_upper s \<and>
        (\<exists>sp r3. r2 = sp @ r3 \<and> sp \<noteq> [] \<and> list_all is_space sp \<and>
          (\<exists>z r4. r3 = z @ r4 \<and> length z = 5 \<and> list_all is_digit z \<and> list_all is_dot r4))"
      by blast
    with x 1 show "\<exists>sp1 r1. xs = sp1 @ r1 \<and> sp1 \<noteq> [] \<and> list_all is_space sp1 \<and>
        (\<exists>st r2. r1 = st @ r2 \<and> length st = 2 \<and> list_all is_upper st \<and>
          (\<exists>sp2 r3. r2 = sp2 @ r3 \<and> sp2 \<noteq> [] \<and> list_all is_space sp2 \<and>
            (\<exists>zip r4. r3 = zip @ r4 \<and> length zip = 5 \<and> list_all is_digit zip \<and>
               list_all is_dot r4)))"
      by blast
  qed
  finally show ?thesis .
qed

text \<open>
  The leftmost match: it starts after the shortest prefix of the text behind which the
  pattern matches.
\<close>

lemma exec_from_Some:
  "exec_from ic r prev s = Some (before, after) \<Longrightarrow>
   \<exists>rest. s = before @ rest \<and> ends ic r (prev_of prev before, rest) \<noteq> [] \<and>
     (\<forall>b' r'. s = b' @ r' \<and> length b' < length before \<longrightarrow>
        ends ic r (prev_of prev b', r') = [])"
proof (induction s arbitrary: prev before)
  case Nil
  then have "before = []" and "ends ic r (prev, []) \<noteq> []"
    by (auto split: list.splits)
  then have "[] = before @ [] \<and> ends ic r (prev_of prev before, []) \<noteq> [] \<and>
     (\<forall>b' r'. [] = b' @ r' \<and> length b' < length before \<longrightarrow>
        ends ic r (prev_of prev b', r') = [])"
    by (simp add: prev_of_def)
  then show ?case ..
next
  case (Cons x xs)
  show ?case
  proof (cases "ends ic r (prev, x # xs)")
    case (Cons e es)
    with Cons.prems have "before = []" by simp
    with Cons have "x # xs = before @ (x # xs) \<and>
      ends ic r (prev_of prev before, x # xs) \<noteq> [] \<and>
      (\<forall>b' r'. x # xs = b' @ r' \<and> length b' < length before \<longrightarrow>
        ends ic r (prev_of prev b', r') = [])"
      by (simp add: prev_of_def)
    then show ?thesis ..
  next
    case Nil
    with Cons.prems obtain b where b: "exec_from ic r (Some x) xs = Some (b, after)"
      and before: "before = x # b"
      by (auto split: option.splits)
    from Cons.IH [OF b] obtain rest where rest: "xs = b @ rest"
      "ends ic r (prev_of (Some x) b, rest) \<noteq> []"
      and least: "\<forall>b' r'. xs = b' @ r' \<and> length b' < length b \<longrightarrow>
        ends ic r (prev_of (Some x) b', r') = []"
      by blast
    have p: "prev_of prev (x # w) = prev_of (Some x) w" for w
      by (simp add: prev_of_def)
    have "ends ic r (prev_of prev b', r') = []"
      if "x # xs = b' @ r'" "length b' < length before" for b' r'
    proof (cases b')
      case Nil
      with that(1) Cons.prems \<open>ends ic r (prev, x # xs) = []\<close> show ?thesis
        by (simp add: prev_of_def)
    next
      case (Cons y w)
      with that before have "xs = w @ r'" "length w < length b" "y = x" by simp_all
      with least have "ends ic r (prev_of (Some x) w, r') = []" by blast
      with Cons \<open>y = x\<close> show ?thesis by (simp only: p)
    qed
    with rest before have "x # xs = before @ rest \<and>
      ends ic r (prev_of prev before, rest) \<noteq> [] \<and>
      (\<forall>b' r'. x # xs = b' @ r' \<and> length b' < length before \<longrightarrow>
        ends ic r (prev_of prev b', r') = [])"
      by (simp add: p)
    then show ?thesis ..
  qed
qed

text \<open>
  What the parser removes from a city segment: nothing when no part of the segment from
  some place to its end is a state and zip suffix, and otherwise everything from the first
  such place on.
\<close>

lemma strip_no_suffix:
  assumes "\<forall>body tail. t = body @ tail \<longrightarrow> \<not> stateZipSuffix tail"
  shows "replace_first False stateZipPattern t [] = t"
proof -
  have "exec_from False stateZipPattern None t = None"
    unfolding exec_from_None using assms stateZipPattern_accepts by blast
  then show ?thesis by (simp add: replace_first_def regex_exec_def)
qed

lemma strip_first_suffix:
  assumes t: "t = body @ tail" and tail: "stateZipSuffix tail"
    and first: "\<forall>body' tail'. t = body' @ tail' \<and> stateZipSuffix tail' \<longrightarrow> length body \<le> length body'"
  shows "replace_first False stateZipPattern t [] = body"
proof -
  have "exec_from False stateZipPattern None t \<noteq> None"
    unfolding exec_from_None using t tail stateZipPattern_accepts by blast
  then obtain before after where e: "exec_from False stateZipPattern None t = Some (before, after)"
    by auto
  from exec_from_end [OF e] have after: "after = []" using stateZipPattern_final by blast
  from exec_from_Some [OF e] obtain rest where rest: "t = before @ rest"
    and m: "ends False stateZipPattern (prev_of None before, rest) \<noteq> []"
    and least: "\<forall>b' r'. t = b' @ r' \<and> length b' < length before \<longrightarrow>
        ends False stateZipPattern (prev_of None b', r') = []"
    by blast
  from m have "stateZipSuffix rest" unfolding stateZipPattern_accepts .
  with rest first have "length body \<le> length before" by blast
  moreover have "\<not> length body < length before"
  proof
    assume "length body < length before"
    with t least have "ends False stateZipPattern (prev_of None body, tail) = []" by blast
    with tail show False using stateZipPattern_accepts by blast
  qed
  ultimately have "length before = length body" by simp
  with t rest have "before = body" by (metis append_eq_append_conv)
  with e after show ?thesis by (simp add: replace_first_def regex_exec_def)
qed

lemma no_suffix_exec:
  "regex_exec False stateZipPattern t = None \<Longrightarrow>
   \<forall>body tail. t = body @ tail \<longrightarrow> \<not> stateZipSuffix tail"
  unfolding regex_exec_def exec_from_None using stateZipPattern_accepts by blast

lemma first_suffix_exec:
  assumes "regex_exec False stateZipPattern t = Some (body, after)"
  shows "\<exists>tail. t = body @ tail \<and> stateZipSuffix tail \<and>
     (\<forall>body' tail'. t = body' @ tail' \<and> stateZipSuffix tail' \<longrightarrow> length body \<le> length body')"
proof -
  from assms have e: "exec_from False stateZipPattern None t = Some (body, after)"
    by (simp add: regex_exec_def)
  from exec_from_Some [OF e] obtain rest where rest: "t = body @ rest"
    and m: "ends False stateZipPattern (prev_of None body, rest) \<noteq> []"
    and least: "\<forall>b' r'. t = b' @ r' \<and> length b' < length body \<longrightarrow>
        ends False stateZipPattern (prev_of None b', r') = []"
    by blast
  from m have s: "stateZipSuffix rest" unfolding stateZipPattern_accepts .
  have "length body \<le> length body'" if "t = body' @ tail'" "stateZipSuffix tail'" for body' tail'
  proof (rule ccontr)
    assume "\<not> length body \<le> length body'"
    with that(1) least have "ends False stateZipPattern (prev_of None body', tail') = []" by simp
    with that(2) show False using stateZipPattern_accepts by blast
  qed
  with rest s show ?thesis by blast
qed

lemma parseAddress_example:
  "parseAddress (js ''123 Main St, Springfield, IL 62704'') =
     \<lparr>parsed_addressline = js ''123 Main St'', parsed_city = js ''Springfield''\<rparr>"
  by (simp add: parser_defs regex_defs class_defs normalizer_defs)

lemma parseAddress_example_strip:
  "parseAddress (js ''1 Oak Ave , Denver CO 80014 USA'') =
     \<lparr>parsed_addressline = js ''1 Oak Ave'', parsed_city = js ''Denver''\<rparr>"
  by (simp add: parser_defs regex_defs class_defs normalizer_defs)

text \<open>
  C9. When the normalized text splits on the comma into at least two segments, the street
  line is the first segment trimmed. The city is the second segment trimmed, cut at the
  first place from which the rest of the segment is a state and zip suffix (white space,
  two capital letters, white space, five digits, and whatever follows on the line), and
  trimmed again; a segment without such a place is kept whole. The example of the
  specification is evaluated, and so is one where a state and zip suffix is stripped.
\<close>

theorem parseAddress_two_segments:
  "(2 \<le> length (split_on 44 (cleanAddressText text)) \<longrightarrow>
      parsed_addressline (parseAddress text) = trim (split_on 44 (cleanAddressText text) ! 0) \<and>
      ((\<forall>body tail. trim (split_on 44 (cleanAddressText text) ! 1) = body @ tail \<longrightarrow>
           \<not> stateZipSuffix tail) \<longrightarrow>
         parsed_city (parseAddress text) = trim (split_on 44 (cleanAddressText text) ! 1)) \<and>
      (\<forall>body tail.
         trim (split_on 44 (cleanAddressText text) ! 1) = body @ tail \<and> stateZipSuffix tail \<and>
         (\<forall>body' tail'.
            trim (split_on 44 (cleanAddressText text) ! 1) = body' @ tail' \<and>
            stateZipSuffix tail' \<longrightarrow> length body \<le> length body') \<longrightarrow>
         parsed_city (parseAddress text) = trim body)) \<and>
   parseAddress (js ''123 Main St, Springfield, IL 62704'') =
     \<lparr>parsed_addressline = js ''123 Main St'', parsed_city = js ''Springfield''\<rparr> \<and>
   parseAddress (js ''1 Oak Ave , Denver CO 80014 USA'') =
     \<lparr>parsed_addressline = js ''1 Oak Ave'', parsed_city = js ''Denver''\<rparr>"
proof -
  let ?segs = "split_on 44 (cleanAddressText text)"
  let ?t = "trim (?segs ! 1)"
  have "parsed_addressline (parseAddress text) = trim (?segs ! 0) \<and>
      ((\<forall>body tail. ?t = body @ tail \<longrightarrow> \<not> stateZipSuffix tail) \<longrightarrow>
         parsed_city (parseAddress text) = ?t) \<and>
      (\<forall>body tail.
         ?t = body @ tail \<and> stateZipSuffix tail \<and>
         (\<forall>body' tail'. ?t = body' @ tail' \<and> stateZipSuffix tail' \<longrightarrow>
            length body \<le> length body') \<longrightarrow>
         parsed_city (parseAddress text) = trim body)"
    if l: "2 \<le> length ?segs"
  proof -
    from l have "map trim ?segs ! 0 = trim (?segs ! 0)" and "map trim ?segs ! 1 = ?t"
      by (simp_all only: nth_map)
    with l have a: "parsed_addressline (parseAddress text) = trim (?segs ! 0)"
      and c: "parsed_city (parseAddress text) = trim (replace_first False stateZipPattern ?t [])"
      by (simp_all add: parseAddress_def Let_def)
    have "parsed_city (parseAddress text) = ?t"
      if "\<forall>body tail. ?t = body @ tail \<longrightarrow> \<not> stateZipSuffix tail"
      using c strip_no_suffix [OF that] by (simp only: trim_idem)
    moreover have "parsed_city (parseAddress text) = trim body"
      if "?t = body @ tail \<and> stateZipSuffix tail \<and>
         (\<forall>body' tail'. ?t = body' @ tail' \<and> stateZipSuffix tail' \<longrightarrow>
            length body \<le> length body')" for body tail
    proof -
      from that have "replace_first False stateZipPattern ?t [] = body"
        by (intro strip_first_suffix [of ?t body tail]) blast+
      with c show ?thesis by simp
    qed
    ultimately show ?thesis using a by blast
  qed
  then show ?thesis
    using parseAddress_example parseAddress_example_strip by blast
qed

theorem parseAddress_two_segments_witness:
  "2 \<le> length (split_on 44 (cleanAddressText (js ''7 Elm Rd,Troy NY 12180''))) \<and>
   trim (split_on 44 (cleanAddressText (js ''7 Elm Rd,Troy NY 12180'')) ! 1) =
     js ''Troy'' @ js '' NY 12180'' \<and>
   stateZipSuffix (js '' NY 12180'') \<and>
   parsed_addressline (parseAddress (js ''7 Elm Rd,Troy NY 12180'')) = js ''7 Elm Rd'' \<and>
   parsed_city (parseAddress (js ''7 Elm Rd,Troy NY 12180'')) = js ''Troy'' \<and>
   2 \<le> length (split_on 44 (cleanAddressText (js ''9 Hill Rd, Salem''))) \<and>
   \<not> stateZipSuffix (js ''Salem'') \<and>
   parsed_city (parseAddress (js ''9 Hill Rd, Salem'')) = js ''Salem''"
proof -
  let ?x = "js ''7 Elm Rd,Troy NY 12180''"
  let ?y = "js ''9 Hill Rd, Salem''"
  have "cleanAddressText ?x = ?x"
    by (simp add: normalizer_defs class_defs)
  moreover have "split_on 44 ?x = [js ''7 Elm Rd'', js ''Troy NY 12180'']"
    by (simp add: js_def)
  ultimately have segs: "split_on 44 (cleanAddressText ?x) = [js ''7 Elm Rd'', js ''Troy NY 12180'']"
    by (simp only:)
  have t: "trim (js ''7 Elm Rd'') = js ''7 Elm Rd''" "trim (js ''Troy NY 12180'') = js ''Troy NY 12180''"
    "trim (js ''Troy'') = js ''Troy''"
    by (simp_all add: normalizer_defs class_defs)
  from segs have l: "2 \<le> length (split_on 44 (cleanAddressText ?x))" by simp
  from segs t have t0: "trim (split_on 44 (cleanAddressText ?x) ! 0) = js ''7 Elm Rd''"
    and t1: "trim (split_on 44 (cleanAddressText ?x) ! 1) = js ''Troy NY 12180''"
    by simp_all
  have "regex_exec False stateZipPattern (js ''Troy NY 12180'') = Some (js ''Troy'', [])"
    by (simp add: parser_defs regex_defs class_defs js_def)
  from first_suffix_exec [OF this] obtain tail where tail: "js ''Troy NY 12180'' = js ''Troy'' @ tail"
    "stateZipSuffix tail"
    and first: "\<forall>body' tail'. js ''Troy NY 12180'' = body' @ tail' \<and> stateZipSuffix tail' \<longrightarrow>
      length (js ''Troy'') \<le> length body'"
    by blast
  from tail(1) have tl: "tail = js '' NY 12180''" by (simp add: js_def)
  from t1 tail(1) have d: "trim (split_on 44 (cleanAddressText ?x) ! 1) = js ''Troy'' @ tail"
    by (rule trans)
  have f: "\<forall>body' tail'. trim (split_on 44 (cleanAddressText ?x) ! 1) = body' @ tail' \<and>
      stateZipSuffix tail' \<longrightarrow> length (js ''Troy'') \<le> length body'"
    unfolding t1 using first .
  from parseAddress_two_segments [of ?x] l
  have a1: "parsed_addressline (parseAddress ?x) = trim (split_on 44 (cleanAddressText ?x) ! 0)"
    and "\<forall>body tail.
         trim (split_on 44 (cleanAddressText ?x) ! 1) = body @ tail \<and> stateZipSuffix tail \<and>
         (\<forall>body' tail'.
            trim (split_on 44 (cleanAddressText ?x) ! 1) = body' @ tail' \<and>
            stateZipSuffix tail' \<longrightarrow> length body \<le> length body') \<longrightarrow>
         parsed_city (parseAddress ?x) = trim body"
    by blast+
  with d tail(2) f have "parsed_city (parseAddress ?x) = trim (js ''Troy'')" by blast
  with t have c1: "parsed_city (parseAddress ?x) = js ''Troy''" by (simp only:)
  from a1 t0 have a1': "parsed_addressline (parseAddress ?x) = js ''7 Elm Rd''" by (simp only:)
  have "cleanAddressText ?y = ?y"
    by (simp add: normalizer_defs class_defs)
  moreover have "split_on 44 ?y = [js ''9 Hill Rd'', js '' Salem'']"
    by (simp add: js_def)
  ultimately have segs2: "split_on 44 (cleanAddressText ?y) = [js ''9 Hill Rd'', js '' Salem'']"
    by (simp only:)
  have "trim (js '' Salem'') = js ''Salem''"
    by (simp add: normalizer_defs class_defs)
  with segs2 have t2: "trim (split_on 44 (cleanAddressText ?y) ! 1) = js ''Salem''" by simp
  from segs2 have l2: "2 \<le> length (split_on 44 (cleanAddressText ?y))" by simp
  have "regex_exec False stateZipPattern (js ''Salem'') = None"
    by (simp add: parser_defs regex_defs class_defs js_def)
  from no_suffix_exec [OF this]
  have none: "\<forall>body tail. js ''Salem'' = body @ tail \<longrightarrow> \<not> stateZipSuffix tail" .
  then have n: "\<not> stateZipSuffix (js ''Salem'')" by simp
  from none have "\<forall>body tail. trim (split_on 44 (cleanAddressText ?y) ! 1) = body @ tail \<longrightarrow>
      \<not> stateZipSuffix tail"
    unfolding t2 .
  with parseAddress_two_segments [of ?y] l2
  have "parsed_city (parseAddress ?y) = trim (split_on 44 (cleanAddressText ?y) ! 1)"
    by blast
  with t2 have c2: "parsed_city (parseAddress ?y) = js ''Salem''" by (simp only:)
  from tail(2) tl have s: "stateZipSuffix (js '' NY 12180'')" by (simp only:)
  from d tl have d': "trim (split_on 44 (cleanAddressText ?x) ! 1) = js ''Troy'' @ js '' NY 12180''"
    by (simp only:)
  from l d' s a1' c1 l2 n c2 show ?thesis by (intro conjI)
qed

text \<open>
  C9 as stated does not hold: a state and zip that make up the whole segment have no white
  space before them, so \<^verbatim>\<open>/\s+[A-Z]{2}\s+\d{5}.*$/\<close> does not match and the city is the
  state and zip themselves.
\<close>

theorem parseAddress_keeps_state_zip:
  "parseAddress (js ''1 A St, NY 10001'') =
     \<lparr>parsed_addressline = js ''1 A St'', parsed_city = js ''NY 10001''\<rparr>"
  by (simp add: parser_defs regex_defs class_defs normalizer_defs)

section \<open>Properties of the work-unit selection\<close>

lemmas shard_defs =
  ceil_div_def recordsPerShard_def startIndex_def endIndex_def actualEndIndex_def
  applySharding_def slice_def

lemmas reader_defs =
  truthy_def parseLine_def stateFilter_def noAddress_def pendingRecords_def workUnit_def at_def
  strip_quotes_def

lemma slice_nonneg:
  assumes "0 \<le> a" and "0 \<le> b"
  shows "slice xs a b = take (nat (b - a)) (drop (nat a) xs)"
proof (cases "a \<le> int (length xs)")
  case True
  have "take (nat (min b (int (length xs)) - a)) (drop (nat a) xs) =
        take (nat (b - a)) (drop (nat a) xs)"
  proof (cases "b \<le> int (length xs)")
    case True
    then show ?thesis by (simp add: min_def)
  next
    case False
    then have "length (drop (nat a) xs) \<le> nat (b - a)"
      and "length (drop (nat a) xs) \<le> nat (int (length xs) - a)"
      using assms by auto
    with False show ?thesis by (simp add: min_def)
  qed
  with True assms show ?thesis by (simp add: slice_def Let_def min_def)
next
  case False
  with assms show ?thesis by (simp add: slice_def Let_def min_def)
qed

lemma ceil_div_nonneg: "0 < k \<Longrightarrow> 0 \<le> n \<Longrightarrow> 0 \<le> ceil_div n k"
  using div_nonpos_pos_le0 [of "- n" k] by (simp add: ceil_div_def)

lemma ceil_div_covers:
  assumes "0 < k"
  shows "n \<le> k * ceil_div n k"
proof -
  have "k * ((- n) div k) + (- n) mod k = - n" by (rule mult_div_mod_eq)
  moreover have "0 \<le> (- n) mod k" using assms by simp
  ultimately have "k * ((- n) div k) \<le> - n" by linarith
  then show ?thesis by (simp add: ceil_div_def)
qed

lemma concat_slices: "concat (map (\<lambda>i. take r (drop (i * r) xs)) [0..<k]) = take (k * r) xs"
proof (induction k)
  case 0
  show ?case by simp
next
  case (Suc k)
  have "take (k * r) xs @ take r (drop (k * r) xs) = take (k * r + r) xs"
    by (simp add: take_add)
  with Suc show ?case by (simp add: add.commute)
qed

text \<open>The selection of a shard: the start of its range, up to the cap.\<close>

lemma applySharding_range:
  assumes k: "2 \<le> TOTAL_SHARDS cfg" and i: "0 \<le> SHARD_INDEX cfg" and m: "0 \<le> MAX_RECORDS_PER_SHARD cfg"
  shows "applySharding cfg xs =
         take (nat (MAX_RECORDS_PER_SHARD cfg))
           (take (nat (recordsPerShard cfg xs))
              (drop (nat (SHARD_INDEX cfg) * nat (recordsPerShard cfg xs)) xs))"
proof -
  let ?r = "recordsPerShard cfg xs"
  let ?s = "startIndex cfg xs"
  have r: "0 \<le> ?r" using k by (simp add: recordsPerShard_def ceil_div_nonneg)
  have s: "0 \<le> ?s" using i r by (simp add: startIndex_def)
  have e: "0 \<le> actualEndIndex cfg xs" using r s m by (simp add: actualEndIndex_def endIndex_def)
  have ns: "nat ?s = nat (SHARD_INDEX cfg) * nat ?r"
    using i r by (simp add: startIndex_def nat_mult_distrib)
  have "applySharding cfg xs = take (nat (actualEndIndex cfg xs - ?s)) (drop (nat ?s) xs)"
    using k s e by (simp add: applySharding_def slice_nonneg)
  also have "\<dots> = take (nat (MAX_RECORDS_PER_SHARD cfg)) (take (nat ?r) (drop (nat ?s) xs))"
  proof (cases "?s \<le> int (length xs)")
    case True
    have "take (nat (min (?s + ?r) (int (length xs)) - ?s)) (drop (nat ?s) xs) =
          take (nat ?r) (drop (nat ?s) xs)"
    proof (cases "?s + ?r \<le> int (length xs)")
      case True
      then show ?thesis by (simp add: min_def)
    next
      case False
      then have "length (drop (nat ?s) xs) \<le> nat ?r"
        and "length (drop (nat ?s) xs) \<le> nat (int (length xs) - ?s)"
        using s by auto
      with False show ?thesis by (simp add: min_def)
    qed
    then have "take (nat (MAX_RECORDS_PER_SHARD cfg)) (take (nat ?r) (drop (nat ?s) xs)) =
          take (nat (MAX_RECORDS_PER_SHARD cfg))
            (take (nat (min (?s + ?r) (int (length xs)) - ?s)) (drop (nat ?s) xs))"
      by (rule arg_cong [OF sym])
    then have "take (nat (MAX_RECORDS_PER_SHARD cfg)) (take (nat ?r) (drop (nat ?s) xs)) =
          take (min (nat (MAX_RECORDS_PER_SHARD cfg)) (nat (min (?s + ?r) (int (length xs)) - ?s)))
            (drop (nat ?s) xs)"
      by (simp only: take_take)
    moreover have "nat (actualEndIndex cfg xs - ?s) =
          min (nat (MAX_RECORDS_PER_SHARD cfg)) (nat (min (?s + ?r) (int (length xs)) - ?s))"
      using m r s True by (auto simp: actualEndIndex_def endIndex_def min_def)
    ultimately show ?thesis by simp
  next
    case False
    then show ?thesis using s by simp
  qed
  finally show ?thesis by (simp add: ns)
qed


lemma applySharding_uncapped:
  assumes k: "1 \<le> k" and cap: "int (length xs) \<le> cap" and i: "i < nat k"
  shows "applySharding \<lparr>TARGET_STATE = t, SHARD_INDEX = int i, TOTAL_SHARDS = k,
           MAX_RECORDS_PER_SHARD = cap\<rparr> xs =
         take (nat (ceil_div (int (length xs)) k)) (drop (i * nat (ceil_div (int (length xs)) k)) xs)"
proof (cases "k = 1")
  case True
  with i show ?thesis by (simp add: applySharding_def ceil_div_def)
next
  case False
  let ?cfg = "\<lparr>TARGET_STATE = t, SHARD_INDEX = int i, TOTAL_SHARDS = k,
    MAX_RECORDS_PER_SHARD = cap\<rparr>"
  let ?r = "nat (ceil_div (int (length xs)) k)"
  from False k have "2 \<le> TOTAL_SHARDS ?cfg" by simp
  moreover have "0 \<le> SHARD_INDEX ?cfg" by simp
  moreover have "0 \<le> MAX_RECORDS_PER_SHARD ?cfg" using cap by simp
  ultimately have "applySharding ?cfg xs =
      take (nat (MAX_RECORDS_PER_SHARD ?cfg)) (take (nat (recordsPerShard ?cfg xs))
        (drop (nat (SHARD_INDEX ?cfg) * nat (recordsPerShard ?cfg xs)) xs))"
    by (rule applySharding_range)
  then have "applySharding ?cfg xs = take (nat cap) (take ?r (drop (i * ?r) xs))"
    by (simp add: recordsPerShard_def del: take_take)
  moreover have "take (nat cap) (take ?r (drop (i * ?r) xs)) = take ?r (drop (i * ?r) xs)"
    by (rule take_all) (use cap in simp)
  ultimately show ?thesis by (simp only:)
qed

text \<open>
  C2, as amended. With a cap that does not bind, the selections of the shards 0 to
  \<open>k - 1\<close> are the consecutive slices of \<open>ceil(n/k)\<close> rows from the index
  \<open>i * ceil(n/k)\<close> on, cut at the end of the table, and put end to end they are the
  pending rows, each once and in order. A slice has \<open>ceil(n/k)\<close> rows when it lies
  within the table; the slice that reaches the end may be shorter and the slices after
  it are empty.
\<close>

theorem shards_partition:
  "1 \<le> k \<and> int (length xs) \<le> cap \<longrightarrow>
     concat (map (\<lambda>i. applySharding \<lparr>TARGET_STATE = t, SHARD_INDEX = int i, TOTAL_SHARDS = k,
                        MAX_RECORDS_PER_SHARD = cap\<rparr> xs) [0..<nat k]) = xs \<and>
     (\<forall>i<nat k. applySharding \<lparr>TARGET_STATE = t, SHARD_INDEX = int i, TOTAL_SHARDS = k,
                        MAX_RECORDS_PER_SHARD = cap\<rparr> xs =
          take (nat (ceil_div (int (length xs)) k))
            (drop (i * nat (ceil_div (int (length xs)) k)) xs)) \<and>
     (\<forall>i<nat k. length (applySharding \<lparr>TARGET_STATE = t, SHARD_INDEX = int i, TOTAL_SHARDS = k,
                        MAX_RECORDS_PER_SHARD = cap\<rparr> xs) =
          min (nat (ceil_div (int (length xs)) k))
            (length xs - i * nat (ceil_div (int (length xs)) k)))"
proof
  assume a: "1 \<le> k \<and> int (length xs) \<le> cap"
  let ?r = "nat (ceil_div (int (length xs)) k)"
  let ?sel = "\<lambda>i. applySharding \<lparr>TARGET_STATE = t, SHARD_INDEX = int i, TOTAL_SHARDS = k,
    MAX_RECORDS_PER_SHARD = cap\<rparr> xs"
  have sel: "?sel i = take ?r (drop (i * ?r) xs)" if "i < nat k" for i
    using a that by (intro applySharding_uncapped) simp_all
  have "int (length xs) \<le> k * ceil_div (int (length xs)) k"
    using a by (intro ceil_div_covers) simp
  moreover have "0 \<le> ceil_div (int (length xs)) k" using a by (intro ceil_div_nonneg) simp_all
  ultimately have "int (length xs) \<le> int (nat k * ?r)" using a by simp
  then have cover: "length xs \<le> nat k * ?r" by (simp only: of_nat_le_iff)
  have "map ?sel [0..<nat k] = map (\<lambda>i. take ?r (drop (i * ?r) xs)) [0..<nat k]"
    by (rule map_cong [OF refl]) (simp add: sel)
  then have "concat (map ?sel [0..<nat k]) =
      concat (map (\<lambda>i. take ?r (drop (i * ?r) xs)) [0..<nat k])"
    by (rule arg_cong)
  also have "\<dots> = take (nat k * ?r) xs" by (rule concat_slices)
  also have "\<dots> = xs" using cover by simp
  finally have "concat (map ?sel [0..<nat k]) = xs" .
  moreover have "\<forall>i<nat k. ?sel i = take ?r (drop (i * ?r) xs)" using sel by blast
  moreover have "\<forall>i<nat k. length (?sel i) = min ?r (length xs - i * ?r)"
    using sel by (simp add: min.commute)
  ultimately show "concat (map ?sel [0..<nat k]) = xs \<and>
     (\<forall>i<nat k. ?sel i = take ?r (drop (i * ?r) xs)) \<and>
     (\<forall>i<nat k. length (?sel i) = min ?r (length xs - i * ?r))"
    by blast
qed

theorem shards_partition_witness:
  "concat (map (\<lambda>i. applySharding (scenarioConfig (int i) 3 7) [1, 2, 3, 4, 5, 6, 7 :: nat]) [0..<3]) =
     [1, 2, 3, 4, 5, 6, 7] \<and>
   map (\<lambda>i. applySharding (scenarioConfig (int i) 3 7) [1, 2, 3, 4, 5, 6, 7 :: nat]) [0, 1, 2] =
     [[1, 2, 3], [4, 5, 6], [7]]"
proof -
  have pre: "(1::int) \<le> 3 \<and> int (length [1, 2, 3, 4, 5, 6, 7 :: nat]) \<le> 7" by simp
  have n: "nat 3 = 3" by simp
  have "concat (map (\<lambda>i. applySharding \<lparr>TARGET_STATE = State (js ''ALL''), SHARD_INDEX = int i,
      TOTAL_SHARDS = 3, MAX_RECORDS_PER_SHARD = 7\<rparr> [1, 2, 3, 4, 5, 6, 7 :: nat]) [0..<nat 3]) =
      [1, 2, 3, 4, 5, 6, 7]"
    by (rule conjunct1 [OF shards_partition [THEN mp, OF pre]])
  then have c: "concat (map (\<lambda>i. applySharding (scenarioConfig (int i) 3 7)
      [1, 2, 3, 4, 5, 6, 7 :: nat]) [0..<3]) = [1, 2, 3, 4, 5, 6, 7]"
    by (simp only: scenarioConfig_def n)
  have m: "map (\<lambda>i. applySharding (scenarioConfig (int i) 3 7) [1, 2, 3, 4, 5, 6, 7 :: nat])
      [0, 1, 2] = [[1, 2, 3], [4, 5, 6], [7]]"
    by (simp add: scenarioConfig_def shard_defs)
  show ?thesis by (rule conjI [OF c m])
qed

text \<open>
  C2 as stated fails on the sizes: five pending rows and four shards give slices of 2, 2, 1
  and 0 rows, so the third slice is shorter than \<open>ceil(5/4) = 2\<close> though it is not the last.
\<close>

theorem shards_sizes_counterexample:
  "ceil_div 5 4 = 2 \<and>
   map (\<lambda>i. length (applySharding (scenarioConfig i 4 5) [1, 2, 3, 4, 5 :: nat])) [0, 1, 2, 3] =
     [2, 2, 1, 0]"
  by (simp add: scenarioConfig_def shard_defs)

text \<open>The cap holds for every shard index, also a negative one.\<close>

lemma slice_negative_start:
  assumes "a < 0" and "b \<le> 0" and "b \<le> a + m" and "0 \<le> m"
  shows "int (length (slice xs a b)) \<le> m"
proof (cases "b = 0")
  case True
  with assms show ?thesis by (simp add: slice_def Let_def)
next
  case False
  with assms have b: "b < 0" by simp
  have "int (length (slice xs a b)) \<le> int (nat (max (int (length xs) + b) 0 -
      max (int (length xs) + a) 0))"
    using assms(1) b by (simp add: slice_def Let_def)
  also have "\<dots> \<le> m" using assms by (simp add: max_def)
  finally show ?thesis .
qed

lemma applySharding_length:
  assumes k: "2 \<le> TOTAL_SHARDS cfg" and m: "0 \<le> MAX_RECORDS_PER_SHARD cfg"
  shows "int (length (applySharding cfg xs)) \<le> MAX_RECORDS_PER_SHARD cfg"
proof (cases "0 \<le> SHARD_INDEX cfg")
  case True
  then show ?thesis using m by (simp add: applySharding_range [OF k True m])
next
  case False
  let ?r = "recordsPerShard cfg xs"
  have r: "0 \<le> ?r" using k by (simp add: recordsPerShard_def ceil_div_nonneg)
  show ?thesis
  proof (cases "?r = 0")
    case True
    with m have "startIndex cfg xs = 0" and "actualEndIndex cfg xs = 0"
      by (simp_all add: startIndex_def actualEndIndex_def endIndex_def)
    then have "slice xs (startIndex cfg xs) (actualEndIndex cfg xs) = []"
      by (simp add: slice_def Let_def)
    with k m show ?thesis by (simp add: applySharding_def)
  next
    case False
    with r have rp: "0 < ?r" by simp
    from \<open>\<not> 0 \<le> SHARD_INDEX cfg\<close> have "SHARD_INDEX cfg + 1 \<le> 0" by simp
    with r have "(SHARD_INDEX cfg + 1) * ?r \<le> 0" by (simp add: mult_nonpos_nonneg)
    then have e: "startIndex cfg xs + ?r \<le> 0" by (simp add: startIndex_def algebra_simps)
    with rp have s: "startIndex cfg xs < 0" by simp
    from e have "actualEndIndex cfg xs \<le> 0" by (simp add: actualEndIndex_def endIndex_def)
    moreover have "actualEndIndex cfg xs \<le> startIndex cfg xs + MAX_RECORDS_PER_SHARD cfg"
      by (simp add: actualEndIndex_def)
    ultimately have "int (length (slice xs (startIndex cfg xs) (actualEndIndex cfg xs))) \<le>
        MAX_RECORDS_PER_SHARD cfg"
      using s m by (intro slice_negative_start)
    with k show ?thesis by (simp add: applySharding_def)
  qed
qed

lemma readZipCodesFromCSV_length:
  assumes "2 \<le> TOTAL_SHARDS cfg" and "0 \<le> MAX_RECORDS_PER_SHARD cfg"
    and "readZipCodesFromCSV cfg f = Returns units"
  shows "int (length units) \<le> MAX_RECORDS_PER_SHARD cfg"
proof -
  from assms(3) have "units = [] \<or> (\<exists>xs. units = map workUnit (applySharding cfg xs))"
    by (auto simp: readZipCodesFromCSV_def split: csv_file.splits list.splits option.splits)
  then show ?thesis using applySharding_length [OF assms(1,2)] assms(2) by auto
qed

text \<open>
  C4, as amended. With at least two shards and a cap that is not negative,
  \<open>readZipCodesFromCSV\<close> returns at most \<open>maxPerShard\<close> work units, whatever the shard
  index, and for a shard index that is not negative the selection is the first
  \<open>maxPerShard\<close> rows of the shard's range. With a single shard the block that shards
  and caps is skipped: every pending row is selected.
\<close>

theorem selection_capped:
  "(2 \<le> TOTAL_SHARDS cfg \<and> 0 \<le> MAX_RECORDS_PER_SHARD cfg \<longrightarrow>
      int (length (applySharding cfg xs)) \<le> MAX_RECORDS_PER_SHARD cfg \<and>
      (\<forall>units. readZipCodesFromCSV cfg f = Returns units \<longrightarrow>
         int (length units) \<le> MAX_RECORDS_PER_SHARD cfg) \<and>
      (0 \<le> SHARD_INDEX cfg \<longrightarrow>
         applySharding cfg xs =
           take (nat (MAX_RECORDS_PER_SHARD cfg))
             (take (nat (recordsPerShard cfg xs))
                (drop (nat (SHARD_INDEX cfg) * nat (recordsPerShard cfg xs)) xs)))) \<and>
   (TOTAL_SHARDS cfg \<le> 1 \<longrightarrow> applySharding cfg xs = xs)"
  using applySharding_range [of cfg xs] readZipCodesFromCSV_length [of cfg f]
    applySharding_length [of cfg xs]
  by (auto simp: applySharding_def)

lemma scenario_lines:
  "filter (\<lambda>line. trim line \<noteq> []) (split_on 10 scenarioTable) =
     [js ''zipcode,state,address,city'', js ''10001,NY,,'', js ''10002,NY,,'']"
  by (simp add: scenarioTable_def js_def trim_def trimEnd_def is_space_def)

lemma scenario_pending:
  "pendingRecords (scenarioConfig i k m) (split_on 44 (js ''zipcode,state,address,city''))
     [js ''10001,NY,,'', js ''10002,NY,,''] =
   Some [\<lparr>item_zipcode = Some (js ''10001''), item_state = Some (js ''NY''),
           item_address = Some [], item_city = Some []\<rparr>,
         \<lparr>item_zipcode = Some (js ''10002''), item_state = Some (js ''NY''),
           item_address = Some [], item_city = Some []\<rparr>]"
  by (simp add: scenarioConfig_def reader_defs js_def trim_def trimEnd_def is_space_def Let_def)

lemma scenario_read:
  "readZipCodesFromCSV (scenarioConfig i k m) (Content scenarioTable) =
   Returns (map workUnit (applySharding (scenarioConfig i k m)
     [\<lparr>item_zipcode = Some (js ''10001''), item_state = Some (js ''NY''),
        item_address = Some [], item_city = Some []\<rparr>,
      \<lparr>item_zipcode = Some (js ''10002''), item_state = Some (js ''NY''),
        item_address = Some [], item_city = Some []\<rparr>]))"
  by (simp only: readZipCodesFromCSV_def csv_file.case scenario_lines list.case scenario_pending
      option.case)

theorem selection_capped_witness:
  "readZipCodesFromCSV (scenarioConfig 0 2 1) (Content scenarioTable) =
     Returns [(js ''10001'', js ''NY'')] \<and>
   int (length [(js ''10001'', js ''NY'')]) \<le> MAX_RECORDS_PER_SHARD (scenarioConfig 0 2 1)"
proof -
  have r: "readZipCodesFromCSV (scenarioConfig 0 2 1) (Content scenarioTable) =
      Returns [(js ''10001'', js ''NY'')]"
    by (simp add: scenario_read) (simp add: scenarioConfig_def shard_defs workUnit_def)
  have "2 \<le> TOTAL_SHARDS (scenarioConfig 0 2 1) \<and>
      0 \<le> MAX_RECORDS_PER_SHARD (scenarioConfig 0 2 1)"
    by (simp add: scenarioConfig_def)
  with selection_capped [of "scenarioConfig 0 2 1" "[]" "Content scenarioTable"] r
  show ?thesis by blast
qed

text \<open>
  C4 as stated fails with a single shard: the cap is 1 and both pending rows are returned.
\<close>

theorem selection_uncapped_counterexample:
  "TOTAL_SHARDS (scenarioConfig 0 1 1) = 1 \<and> MAX_RECORDS_PER_SHARD (scenarioConfig 0 1 1) = 1 \<and>
   readZipCodesFromCSV (scenarioConfig 0 1 1) (Content scenarioTable) =
     Returns [(js ''10001'', js ''NY''), (js ''10002'', js ''NY'')]"
  by (simp add: scenario_read) (simp add: scenarioConfig_def applySharding_def workUnit_def)

section \<open>Properties of the row update\<close>

lemmas store_defs = canonicalHeader_def fixHeader_def rebuildRow_def updateFinalCSV_def

lemma split_on_not_Nil: "split_on sep s \<noteq> []"
  by (induction s) (auto split: list.splits)

lemma split_on_no_sep: "l \<in> set (split_on sep s) \<Longrightarrow> sep \<notin> set l"
proof (induction s arbitrary: l)
  case Nil
  then show ?case by simp
next
  case (Cons x xs)
  show ?case
  proof (cases "x = sep")
    case True
    with Cons show ?thesis by auto
  next
    case False
    obtain seg segs where s: "split_on sep xs = seg # segs"
      using split_on_not_Nil [of sep xs] by (cases "split_on sep xs") auto
    with False Cons.prems have "l = x # seg \<or> l \<in> set segs" by simp
    then show ?thesis
    proof
      assume "l = x # seg"
      moreover have "sep \<notin> set seg" using Cons.IH [of seg] s by simp
      ultimately show ?thesis using False by auto
    next
      assume "l \<in> set segs"
      then show ?thesis using Cons.IH [of l] s by simp
    qed
  qed
qed

lemma split_on_plain: "sep \<notin> set l \<Longrightarrow> split_on sep l = [l]"
  by (induction l) auto

lemma split_on_append:
  "sep \<notin> set l \<Longrightarrow> split_on sep (l @ sep # rest) = l # split_on sep rest"
  by (induction l) auto

lemma split_on_join:
  "ls \<noteq> [] \<Longrightarrow> \<forall>l\<in>set ls. sep \<notin> set l \<Longrightarrow> split_on sep (join sep ls) = ls"
proof (induction ls rule: join.induct)
  case (1 sep)
  then show ?case by simp
next
  case (2 sep l)
  then show ?case by (simp add: split_on_plain)
next
  case (3 sep l v va)
  then show ?case by (simp add: split_on_append)
qed

lemma findRow_None:
  "findRow zipcode state ls i = None \<longleftrightarrow> (\<forall>l\<in>set ls. \<not> rowMatches zipcode state l)"
  by (induction ls arbitrary: i) (auto simp: rowMatches_def Let_def)

lemma findRow_Some:
  "findRow zipcode state ls i = Some r \<Longrightarrow>
   i \<le> r \<and> r - i < length ls \<and> rowMatches zipcode state (ls ! (r - i)) \<and>
   (\<forall>j<r - i. \<not> rowMatches zipcode state (ls ! j))"
proof (induction ls arbitrary: i)
  case Nil
  then show ?case by simp
next
  case (Cons l ls)
  show ?case
  proof (cases "rowMatches zipcode state l")
    case True
    with Cons.prems have "r = i" by (auto simp: rowMatches_def Let_def)
    with True show ?thesis by simp
  next
    case False
    with Cons.prems have "findRow zipcode state ls (Suc i) = Some r"
      by (auto simp: rowMatches_def Let_def split: if_splits)
    from Cons.IH [OF this] have ih: "Suc i \<le> r" "r - Suc i < length ls"
      "rowMatches zipcode state (ls ! (r - Suc i))"
      "\<forall>j<r - Suc i. \<not> rowMatches zipcode state (ls ! j)"
      by simp_all
    from ih(1) have r: "r - i = Suc (r - Suc i)" by simp
    have "\<forall>j<r - i. \<not> rowMatches zipcode state ((l # ls) ! j)"
    proof (intro allI impI)
      fix j
      assume "j < r - i"
      then show "\<not> rowMatches zipcode state ((l # ls) ! j)"
        using False ih(4) r by (cases j) auto
    qed
    with ih r show ?thesis by simp
  qed
qed

lemma set_strip_quotes: "set (strip_quotes s) \<subseteq> set s"
proof -
  have "set (butlast xs) \<subseteq> set xs" for xs :: jstring
    by (auto dest: in_set_butlastD)
  then show ?thesis
    by (cases s) (auto simp: strip_quotes_def Let_def dest: in_set_butlastD)
qed

lemma updated_columns:
  assumes "4 \<le> length cs"
  shows "(map f cs)[2 := a, 3 := c] ! 0 = f (cs ! 0)" and "(map f cs)[2 := a, 3 := c] ! 1 = f (cs ! 1)"
    and "(map f cs)[2 := a, 3 := c] ! 2 = a" and "(map f cs)[2 := a, 3 := c] ! 3 = c"
proof -
  from assms have "0 < length cs" "1 < length cs" "2 < length cs" "3 < length cs" by linarith+
  then show "(map f cs)[2 := a, 3 := c] ! 0 = f (cs ! 0)"
    and "(map f cs)[2 := a, 3 := c] ! 1 = f (cs ! 1)"
    and "(map f cs)[2 := a, 3 := c] ! 2 = a" and "(map f cs)[2 := a, 3 := c] ! 3 = c"
    by (simp_all add: nth_list_update)
qed

lemma rebuildRow_eq:
  assumes "2 \<le> length (split_on 44 l)"
  shows "rebuildRow l addressLine cty =
         strip_quotes (split_on 44 l ! 0) @ js '','' @ strip_quotes (split_on 44 l ! 1) @
         js '',\"'' @ addressLine @ js ''\",\"'' @ cty @ js ''\"''"
proof -
  let ?cols = "split_on 44 l @ replicate (4 - length (split_on 44 l)) (js ''\"\"'')"
  have len: "4 \<le> length ?cols" by simp
  from assms have "0 < length (split_on 44 l)" and "1 < length (split_on 44 l)" by linarith+
  then have c0: "?cols ! 0 = split_on 44 l ! 0" and c1: "?cols ! 1 = split_on 44 l ! 1"
    by (simp_all only: nth_append if_True)
  note u = updated_columns [OF len, of strip_quotes addressLine cty]
  show ?thesis unfolding rebuildRow_def Let_def by (simp only: u c0 c1)
qed

lemma fixHeader_length: "length (fixHeader ls) = length ls"
  by (simp add: fixHeader_def Let_def)

lemma fixHeader_nth: "1 \<le> j \<Longrightarrow> fixHeader ls ! j = ls ! j"
  by (simp add: fixHeader_def Let_def)

lemma fixHeader_tl: "tl (fixHeader ls) = tl ls"
  by (cases ls) (simp_all add: fixHeader_def Let_def)

lemma fixHeader_no_newline:
  "\<forall>l\<in>set ls. 10 \<notin> set l \<Longrightarrow> \<forall>l\<in>set (fixHeader ls). 10 \<notin> set l"
proof -
  have "10 \<notin> set canonicalHeader" by (simp add: canonicalHeader_def js_def)
  moreover assume "\<forall>l\<in>set ls. 10 \<notin> set l"
  ultimately show ?thesis
    by (auto simp: fixHeader_def Let_def dest!: set_update_subset_insert [THEN subsetD])
qed

lemma split_on_subset: "l \<in> set (split_on sep s) \<Longrightarrow> set l \<subseteq> set s"
proof (induction s arbitrary: l)
  case Nil
  then show ?case by simp
next
  case (Cons x xs)
  show ?case
  proof (cases "x = sep")
    case True
    with Cons show ?thesis by auto
  next
    case False
    obtain seg segs where s: "split_on sep xs = seg # segs"
      using split_on_not_Nil [of sep xs] by (cases "split_on sep xs") auto
    with False Cons.prems have "l = x # seg \<or> l \<in> set segs" by simp
    then show ?thesis
    proof
      assume "l = x # seg"
      moreover have "set seg \<subseteq> set xs" using Cons.IH [of seg] s by simp
      ultimately show ?thesis by auto
    next
      assume "l \<in> set segs"
      then have "set l \<subseteq> set xs" using Cons.IH [of l] s by simp
      then show ?thesis by auto
    qed
  qed
qed

lemma newRow_no_newline:
  assumes "rowMatches zipcode state l" and "10 \<notin> set l"
    and "10 \<notin> set addressLine" and "10 \<notin> set cty"
  shows "10 \<notin> set (strip_quotes zipcode @ js '','' @ strip_quotes state @ js '',\"'' @
           addressLine @ js ''\",\"'' @ cty @ js ''\"'')"
proof -
  from assms(1) have len: "0 < length (split_on 44 l)" "1 < length (split_on 44 l)"
    and z: "split_on 44 l ! 0 = zipcode" and s: "split_on 44 l ! 1 = state"
    by (auto simp: rowMatches_def)
  from len z s have "zipcode \<in> set (split_on 44 l)" and "state \<in> set (split_on 44 l)"
    using nth_mem by blast+
  then have "set zipcode \<subseteq> set l" and "set state \<subseteq> set l"
    using split_on_subset by blast+
  with assms(2) have "10 \<notin> set (strip_quotes zipcode)" and "10 \<notin> set (strip_quotes state)"
    using set_strip_quotes by blast+
  with assms(3,4) show ?thesis by (simp add: js_def)
qed

text \<open>What \<open>updateFinalCSV\<close> does to a table with a row of the key at index \<open>i\<close>.\<close>

lemma updateFinalCSV_found:
  assumes f: "findRow zipcode state (tl (split_on 10 content)) 1 = Some i"
  shows "1 \<le> i" and "i < length (split_on 10 content)"
    and "rowMatches zipcode state (split_on 10 content ! i)"
    and "\<forall>j. 1 \<le> j \<and> j < i \<longrightarrow> \<not> rowMatches zipcode state (split_on 10 content ! j)"
    and "updateFinalCSV (Content content) zipcode state addressLine cty =
         Returns (Content (join 10 ((fixHeader (split_on 10 content))
           [i := strip_quotes zipcode @ js '','' @ strip_quotes state @ js '',\"'' @
                 addressLine @ js ''\",\"'' @ cty @ js ''\"''])))"
proof -
  let ?ls = "split_on 10 content"
  from findRow_Some [OF f] have i: "1 \<le> i" and l: "i - 1 < length (tl ?ls)"
    and m: "rowMatches zipcode state (tl ?ls ! (i - 1))"
    and n: "\<forall>j<i - 1. \<not> rowMatches zipcode state (tl ?ls ! j)"
    by simp_all
  from i l show il: "i < length ?ls" by simp
  from i have "Suc (i - 1) = i" by simp
  with l have "tl ?ls ! (i - 1) = ?ls ! i" using nth_tl [of "i - 1" ?ls] by simp
  with m show mi: "rowMatches zipcode state (?ls ! i)" by simp
  show "\<forall>j. 1 \<le> j \<and> j < i \<longrightarrow> \<not> rowMatches zipcode state (?ls ! j)"
  proof (intro allI impI)
    fix j
    assume j: "1 \<le> j \<and> j < i"
    then have sj: "Suc (j - 1) = j" and lt: "j - 1 < i - 1" by linarith+
    with l have "tl ?ls ! (j - 1) = ?ls ! j" using nth_tl [of "j - 1" ?ls] by simp
    moreover from lt n have "\<not> rowMatches zipcode state (tl ?ls ! (j - 1))" by blast
    ultimately show "\<not> rowMatches zipcode state (?ls ! j)" by simp
  qed
  from mi have "2 \<le> length (split_on 44 (?ls ! i))" and "split_on 44 (?ls ! i) ! 0 = zipcode"
    and "split_on 44 (?ls ! i) ! 1 = state"
    by (simp_all add: rowMatches_def)
  then have "rebuildRow (?ls ! i) addressLine cty =
      strip_quotes zipcode @ js '','' @ strip_quotes state @ js '',\"'' @
      addressLine @ js ''\",\"'' @ cty @ js ''\"''"
    using rebuildRow_eq [of "?ls ! i" addressLine cty] by simp
  with f i show "updateFinalCSV (Content content) zipcode state addressLine cty =
      Returns (Content (join 10 ((fixHeader ?ls)
        [i := strip_quotes zipcode @ js '','' @ strip_quotes state @ js '',\"'' @
              addressLine @ js ''\",\"'' @ cty @ js ''\"''])))"
    by (simp add: updateFinalCSV_def Let_def fixHeader_tl fixHeader_nth)
  from i show "1 \<le> i" .
qed

lemma updated_lines_reread:
  assumes "rowMatches zipcode state (split_on 10 content ! i)" and "i < length (split_on 10 content)"
    and "10 \<notin> set addressLine" and "10 \<notin> set cty"
  shows "split_on 10 (join 10 ((fixHeader (split_on 10 content))
           [i := strip_quotes zipcode @ js '','' @ strip_quotes state @ js '',\"'' @
                 addressLine @ js ''\",\"'' @ cty @ js ''\"''])) =
         (fixHeader (split_on 10 content))
           [i := strip_quotes zipcode @ js '','' @ strip_quotes state @ js '',\"'' @
                 addressLine @ js ''\",\"'' @ cty @ js ''\"'']"
proof -
  let ?ls = "split_on 10 content"
  let ?row = "strip_quotes zipcode @ js '','' @ strip_quotes state @ js '',\"'' @
              addressLine @ js ''\",\"'' @ cty @ js ''\"''"
  have a: "\<forall>l\<in>set ?ls. 10 \<notin> set l" using split_on_no_sep by blast
  then have b: "\<forall>l\<in>set (fixHeader ?ls). 10 \<notin> set l" by (rule fixHeader_no_newline)
  from a assms(2) have "10 \<notin> set (?ls ! i)" by simp
  with assms have r: "10 \<notin> set ?row" by (intro newRow_no_newline)
  have "\<forall>l\<in>set ((fixHeader ?ls)[i := ?row]). 10 \<notin> set l"
  proof
    fix l
    assume "l \<in> set ((fixHeader ?ls)[i := ?row])"
    then have "l = ?row \<or> l \<in> set (fixHeader ?ls)"
      using set_update_subset_insert [of "fixHeader ?ls" i ?row] by auto
    with b r show "10 \<notin> set l" by blast
  qed
  moreover have "length ((fixHeader ?ls)[i := ?row]) = length ?ls" by (simp add: fixHeader_length)
  with assms(2) have "(fixHeader ?ls)[i := ?row] \<noteq> []" by auto
  ultimately show ?thesis by (intro split_on_join)
qed

text \<open>
  Reading back what was joined: the lines of every element, one after the other. An
  element that holds the separator comes back as several lines.
\<close>

lemma split_on_sep_append:
  "split_on sep (a @ sep # b) = split_on sep a @ split_on sep b"
proof (induction a)
  case Nil
  show ?case by simp
next
  case (Cons x a)
  obtain seg segs where "split_on sep a = seg # segs"
    using split_on_not_Nil [of sep a] by (cases "split_on sep a") auto
  with Cons show ?case by simp
qed

lemma split_on_join_concat:
  "ls \<noteq> [] \<Longrightarrow> split_on sep (join sep ls) = concat (map (split_on sep) ls)"
proof (induction ls rule: join.induct)
  case (1 sep)
  then show ?case by simp
next
  case (2 sep l)
  show ?case by simp
next
  case (3 sep l v va)
  then show ?case by (simp add: split_on_sep_append)
qed

lemma concat_split_plain:
  "\<forall>l\<in>set ls. sep \<notin> set l \<Longrightarrow> concat (map (split_on sep) ls) = ls"
  by (induction ls) (simp_all add: split_on_plain)

lemma take_hd_tl: "xs \<noteq> [] \<Longrightarrow> 1 \<le> i \<Longrightarrow> take i xs = hd xs # take (i - 1) (tl xs)"
  by (cases xs; cases i) simp_all

lemma updated_lines_reread_all:
  assumes "1 \<le> i" and "i < length (split_on 10 content)"
  shows "split_on 10 (join 10 ((fixHeader (split_on 10 content))[i := row])) =
         hd (fixHeader (split_on 10 content)) #
           take (i - 1) (tl (split_on 10 content)) @ split_on 10 row @
           drop i (tl (split_on 10 content))"
proof -
  let ?ls = "split_on 10 content"
  let ?fl = "fixHeader ?ls"
  have a: "\<forall>l\<in>set ?ls. 10 \<notin> set l" using split_on_no_sep by blast
  then have b: "\<forall>l\<in>set ?fl. 10 \<notin> set l" by (rule fixHeader_no_newline)
  from assms(2) have il: "i < length ?fl" by (simp add: fixHeader_length)
  then have ne: "?fl \<noteq> []" by auto
  from il have u: "?fl[i := row] = take i ?fl @ row # drop (Suc i) ?fl"
    by (rule upd_conv_take_nth_drop)
  from il have "?fl[i := row] \<noteq> []" by auto
  then have "split_on 10 (join 10 (?fl[i := row])) = concat (map (split_on 10) (?fl[i := row]))"
    by (rule split_on_join_concat)
  also have "\<dots> = concat (map (split_on 10) (take i ?fl)) @ split_on 10 row @
      concat (map (split_on 10) (drop (Suc i) ?fl))"
    by (simp only: u map_append concat_append list.map concat.simps)
  also have "concat (map (split_on 10) (take i ?fl)) = take i ?fl"
    using b by (intro concat_split_plain) (auto dest: in_set_takeD)
  also have "concat (map (split_on 10) (drop (Suc i) ?fl)) = drop (Suc i) ?fl"
    using b by (intro concat_split_plain) (auto dest: in_set_dropD)
  also have "take i ?fl = hd ?fl # take (i - 1) (tl ?ls)"
    using take_hd_tl [OF ne assms(1)] by (simp only: fixHeader_tl)
  also have "drop (Suc i) ?fl = drop i (tl ?ls)"
    by (simp only: drop_Suc fixHeader_tl)
  finally show ?thesis by simp
qed

text \<open>
  C3, as amended. An absent table is left absent. When no data row has the key (no line
  from index 1 on that is not blank and whose first two columns are the zipcode and the
  state), the table is returned as it was. Otherwise the first such row, and only it, is
  replaced by the text \<^verbatim>\<open>zipcode,state,"address","city"\<close> built from the key without
  enclosing double quotes and the outcome: whatever the row held after its second column
  is dropped. For every outcome the table read back is the header (rewritten when it lacks
  the address or the city column), the data rows before that row, the lines of the new
  text, and the data rows after that row, all of them as they were. The new text is one
  line when the outcome holds no line feed; then the table has as many lines as before,
  and every data row but the one at the index of the match is as before.
\<close>

theorem updateFinalCSV_frame:
  "updateFinalCSV Absent zipcode state addressLine cty = Returns Absent \<and>
   (findRow zipcode state (tl (split_on 10 content)) 1 = None \<longrightarrow>
      (\<forall>j. 1 \<le> j \<and> j < length (split_on 10 content) \<longrightarrow>
         \<not> rowMatches zipcode state (split_on 10 content ! j)) \<and>
      updateFinalCSV (Content content) zipcode state addressLine cty = Returns (Content content)) \<and>
   (\<forall>i. findRow zipcode state (tl (split_on 10 content)) 1 = Some i \<longrightarrow>
      1 \<le> i \<and> i < length (split_on 10 content) \<and>
      rowMatches zipcode state (split_on 10 content ! i) \<and>
      (\<forall>j. 1 \<le> j \<and> j < i \<longrightarrow> \<not> rowMatches zipcode state (split_on 10 content ! j)) \<and>
      (\<exists>content'.
         updateFinalCSV (Content content) zipcode state addressLine cty =
           Returns (Content content') \<and>
         hd (split_on 10 content') = hd (fixHeader (split_on 10 content)) \<and>
         tl (split_on 10 content') =
           take (i - 1) (tl (split_on 10 content)) @
           split_on 10 (strip_quotes zipcode @ js '','' @ strip_quotes state @ js '',\"'' @
              addressLine @ js ''\",\"'' @ cty @ js ''\"'') @
           drop i (tl (split_on 10 content)) \<and>
         (10 \<notin> set addressLine \<and> 10 \<notin> set cty \<longrightarrow>
            split_on 10 (strip_quotes zipcode @ js '','' @ strip_quotes state @ js '',\"'' @
              addressLine @ js ''\",\"'' @ cty @ js ''\"'') =
              [strip_quotes zipcode @ js '','' @ strip_quotes state @ js '',\"'' @
               addressLine @ js ''\",\"'' @ cty @ js ''\"''] \<and>
            length (split_on 10 content') = length (split_on 10 content) \<and>
            (\<forall>j. 1 \<le> j \<and> j < length (split_on 10 content) \<and> j \<noteq> i \<longrightarrow>
               split_on 10 content' ! j = split_on 10 content ! j))))"
proof (intro conjI impI allI)
  show "updateFinalCSV Absent zipcode state addressLine cty = Returns Absent"
    by (simp add: updateFinalCSV_def)
next
  fix j
  assume n: "findRow zipcode state (tl (split_on 10 content)) 1 = None"
    and j: "1 \<le> j \<and> j < length (split_on 10 content)"
  let ?ls = "split_on 10 content"
  have "length (tl ?ls) = length ?ls - 1" by simp
  with j have sj: "Suc (j - 1) = j" and lj: "j - 1 < length (tl ?ls)" by linarith+
  from lj have "tl ?ls ! (j - 1) \<in> set (tl ?ls)" by (rule nth_mem)
  moreover from sj lj have "tl ?ls ! (j - 1) = ?ls ! j" using nth_tl [of "j - 1" ?ls] by simp
  ultimately have "?ls ! j \<in> set (tl ?ls)" by simp
  with n show "\<not> rowMatches zipcode state (?ls ! j)" by (simp add: findRow_None)
next
  assume "findRow zipcode state (tl (split_on 10 content)) 1 = None"
  then show "updateFinalCSV (Content content) zipcode state addressLine cty =
      Returns (Content content)"
    by (simp add: updateFinalCSV_def Let_def fixHeader_tl)
next
  fix i
  assume f: "findRow zipcode state (tl (split_on 10 content)) 1 = Some i"
  show "1 \<le> i" by (rule updateFinalCSV_found(1) [OF f])
  show "i < length (split_on 10 content)" by (rule updateFinalCSV_found(2) [OF f])
  show "rowMatches zipcode state (split_on 10 content ! i)" by (rule updateFinalCSV_found(3) [OF f])
next
  fix i j
  assume f: "findRow zipcode state (tl (split_on 10 content)) 1 = Some i"
    and "1 \<le> j \<and> j < i"
  then show "\<not> rowMatches zipcode state (split_on 10 content ! j)"
    using updateFinalCSV_found(4) [OF f] by blast
next
  fix i
  assume f: "findRow zipcode state (tl (split_on 10 content)) 1 = Some i"
  let ?ls = "split_on 10 content"
  let ?row = "strip_quotes zipcode @ js '','' @ strip_quotes state @ js '',\"'' @
              addressLine @ js ''\",\"'' @ cty @ js ''\"''"
  let ?new = "join 10 ((fixHeader ?ls)[i := ?row])"
  have u: "updateFinalCSV (Content content) zipcode state addressLine cty =
      Returns (Content ?new)"
    by (rule updateFinalCSV_found(5) [OF f])
  have il: "i < length ?ls" and i1: "1 \<le> i" and m: "rowMatches zipcode state (?ls ! i)"
    using updateFinalCSV_found [OF f] by blast+
  have all: "split_on 10 ?new =
      hd (fixHeader ?ls) # take (i - 1) (tl ?ls) @ split_on 10 ?row @ drop i (tl ?ls)"
    using i1 il by (rule updated_lines_reread_all)
  then have h: "hd (split_on 10 ?new) = hd (fixHeader ?ls)"
    and t: "tl (split_on 10 ?new) = take (i - 1) (tl ?ls) @ split_on 10 ?row @ drop i (tl ?ls)"
    by simp_all
  have "10 \<notin> set addressLine \<and> 10 \<notin> set cty \<longrightarrow>
      split_on 10 ?row = [?row] \<and> length (split_on 10 ?new) = length ?ls \<and>
      (\<forall>j. 1 \<le> j \<and> j < length ?ls \<and> j \<noteq> i \<longrightarrow> split_on 10 ?new ! j = ?ls ! j)"
  proof
    assume nl: "10 \<notin> set addressLine \<and> 10 \<notin> set cty"
    then have r: "split_on 10 ?new = (fixHeader ?ls)[i := ?row]"
      using updated_lines_reread [OF m il] by blast
    have "10 \<notin> set (?ls ! i)" using split_on_no_sep [of "?ls ! i" 10 content] il by simp
    with m nl have "10 \<notin> set ?row" by (intro newRow_no_newline) blast+
    then have "split_on 10 ?row = [?row]" by (rule split_on_plain)
    moreover have "length (split_on 10 ?new) = length ?ls \<and>
      (\<forall>j. 1 \<le> j \<and> j < length ?ls \<and> j \<noteq> i \<longrightarrow> split_on 10 ?new ! j = ?ls ! j)"
      unfolding r using il by (simp add: fixHeader_length fixHeader_nth)
    ultimately show "split_on 10 ?row = [?row] \<and> length (split_on 10 ?new) = length ?ls \<and>
      (\<forall>j. 1 \<le> j \<and> j < length ?ls \<and> j \<noteq> i \<longrightarrow> split_on 10 ?new ! j = ?ls ! j)"
      by blast
  qed
  with u h t show "\<exists>content'.
      updateFinalCSV (Content content) zipcode state addressLine cty = Returns (Content content') \<and>
      hd (split_on 10 content') = hd (fixHeader ?ls) \<and>
      tl (split_on 10 content') = take (i - 1) (tl ?ls) @ split_on 10 ?row @ drop i (tl ?ls) \<and>
      (10 \<notin> set addressLine \<and> 10 \<notin> set cty \<longrightarrow>
         split_on 10 ?row = [?row] \<and> length (split_on 10 content') = length ?ls \<and>
         (\<forall>j. 1 \<le> j \<and> j < length ?ls \<and> j \<noteq> i \<longrightarrow> split_on 10 content' ! j = ?ls ! j))"
    by blast
qed

lemma scenario_split:
  "split_on 10 scenarioTable =
     [js ''zipcode,state,address,city'', js ''10001,NY,,'', js ''10002,NY,,'']"
  by (simp add: scenarioTable_def js_def)

lemma scenario_findRow:
  "findRow (js ''10001'') (js ''NY'') (tl (split_on 10 scenarioTable)) 1 = Some 1"
  "findRow (js ''99999'') (js ''NY'') (tl (split_on 10 scenarioTable)) 1 = None"
  by (simp_all add: scenario_split) (simp_all add: js_def trim_def trimEnd_def is_space_def)

theorem updateFinalCSV_frame_witness:
  "findRow (js ''10001'') (js ''NY'') (tl (split_on 10 scenarioTable)) 1 = Some 1 \<and>
   (\<exists>content'.
      updateFinalCSV (Content scenarioTable) (js ''10001'') (js ''NY'') (js ''5 Elm St'')
        (js ''Troy'') = Returns (Content content') \<and>
      split_on 10 content' =
        [js ''zipcode,state,address,city'', js ''10001,NY,\"5 Elm St\",\"Troy\"'', js ''10002,NY,,'']) \<and>
   (\<exists>content'.
      updateFinalCSV (Content scenarioTable) (js ''10001'') (js ''NY'') (js ''5 Elm St'')
        (js ''Tr'' @ [10] @ js ''oy'') = Returns (Content content') \<and>
      split_on 10 content' =
        [js ''zipcode,state,address,city'', js ''10001,NY,\"5 Elm St\",\"Tr'', js ''oy\"'',
         js ''10002,NY,,'']) \<and>
   findRow (js ''99999'') (js ''NY'') (tl (split_on 10 scenarioTable)) 1 = None \<and>
   updateFinalCSV (Content scenarioTable) (js ''99999'') (js ''NY'') (js ''5 Elm St'') (js ''Troy'') =
     Returns (Content scenarioTable)"
proof -
  have hdr: "hd (fixHeader (split_on 10 scenarioTable)) = js ''zipcode,state,address,city''"
    by (simp add: scenario_split fixHeader_def canonicalHeader_def Let_def js_def)
  have rows: "tl (split_on 10 scenarioTable) = [js ''10001,NY,,'', js ''10002,NY,,'']"
    by (simp add: scenario_split)
  have lines: "xs = [h, a, b, c]" if "hd xs = h" "tl xs = [a, b, c]" for xs :: "jstring list" and h a b c
    using that by (cases xs) simp_all
  have lines3: "xs = [h, a, b]" if "hd xs = h" "tl xs = [a, b]" for xs :: "jstring list" and h a b
    using that by (cases xs) simp_all
  have r1: "split_on 10 (strip_quotes (js ''10001'') @ js '','' @ strip_quotes (js ''NY'') @
        js '',\"'' @ js ''5 Elm St'' @ js ''\",\"'' @ js ''Troy'' @ js ''\"'') =
      [js ''10001,NY,\"5 Elm St\",\"Troy\"'']"
    by (simp add: strip_quotes_def js_def)
  have r2: "split_on 10 (strip_quotes (js ''10001'') @ js '','' @ strip_quotes (js ''NY'') @
        js '',\"'' @ js ''5 Elm St'' @ js ''\",\"'' @ (js ''Tr'' @ [10] @ js ''oy'') @ js ''\"'') =
      [js ''10001,NY,\"5 Elm St\",\"Tr'', js ''oy\"'']"
    by (simp add: strip_quotes_def js_def)
  from updateFinalCSV_frame [of "js ''10001''" "js ''NY''" "js ''5 Elm St''" "js ''Troy''" scenarioTable]
    scenario_findRow(1)
  obtain c1 where c1: "updateFinalCSV (Content scenarioTable) (js ''10001'') (js ''NY'')
        (js ''5 Elm St'') (js ''Troy'') = Returns (Content c1)"
    and h1: "hd (split_on 10 c1) = hd (fixHeader (split_on 10 scenarioTable))"
    and t1: "tl (split_on 10 c1) =
        take (1 - 1) (tl (split_on 10 scenarioTable)) @
        split_on 10 (strip_quotes (js ''10001'') @ js '','' @ strip_quotes (js ''NY'') @
          js '',\"'' @ js ''5 Elm St'' @ js ''\",\"'' @ js ''Troy'' @ js ''\"'') @
        drop 1 (tl (split_on 10 scenarioTable))"
    by blast
  from h1 t1 have s1: "split_on 10 c1 =
      [js ''zipcode,state,address,city'', js ''10001,NY,\"5 Elm St\",\"Troy\"'', js ''10002,NY,,'']"
    unfolding hdr rows r1 by (intro lines3) simp_all
  from updateFinalCSV_frame [of "js ''10001''" "js ''NY''" "js ''5 Elm St''"
      "js ''Tr'' @ [10] @ js ''oy''" scenarioTable]
    scenario_findRow(1)
  obtain c2 where c2: "updateFinalCSV (Content scenarioTable) (js ''10001'') (js ''NY'')
        (js ''5 Elm St'') (js ''Tr'' @ [10] @ js ''oy'') = Returns (Content c2)"
    and h2: "hd (split_on 10 c2) = hd (fixHeader (split_on 10 scenarioTable))"
    and t2: "tl (split_on 10 c2) =
        take (1 - 1) (tl (split_on 10 scenarioTable)) @
        split_on 10 (strip_quotes (js ''10001'') @ js '','' @ strip_quotes (js ''NY'') @
          js '',\"'' @ js ''5 Elm St'' @ js ''\",\"'' @ (js ''Tr'' @ [10] @ js ''oy'') @ js ''\"'') @
        drop 1 (tl (split_on 10 scenarioTable))"
    by blast
  from h2 t2 have s2: "split_on 10 c2 =
      [js ''zipcode,state,address,city'', js ''10001,NY,\"5 Elm St\",\"Tr'', js ''oy\"'',
       js ''10002,NY,,'']"
    unfolding hdr rows r2 by (intro lines) simp_all
  have n: "updateFinalCSV (Content scenarioTable) (js ''99999'') (js ''NY'') (js ''5 Elm St'')
      (js ''Troy'') = Returns (Content scenarioTable)"
    using updateFinalCSV_frame [of "js ''99999''" "js ''NY''" "js ''5 Elm St''" "js ''Troy''" scenarioTable]
      scenario_findRow(2) by blast
  from c1 s1 c2 s2 n scenario_findRow show ?thesis by blast
qed

text \<open>
  C3 as stated fails on a row with more than four columns: the update does not only
  overwrite the address and the city, it drops the fifth column \<open>X\<close> of the row.
\<close>

theorem updateFinalCSV_drops_columns:
  "updateFinalCSV (Content (join 10 [js ''zipcode,state,address,city'', js ''10001,NY,,,X'']))
     (js ''10001'') (js ''NY'') (js ''A'') (js ''C'') =
   Returns (Content (join 10 [js ''zipcode,state,address,city'', js ''10001,NY,\"A\",\"C\"'']))"
  by (simp add: store_defs js_def trim_def trimEnd_def is_space_def strip_quotes_def Let_def)

section \<open>Properties of the orchestrator\<close>

lemma updateFinalCSV_Content:
  "\<exists>content'. updateFinalCSV (Content content) zipcode state addressLine cty =
     Returns (Content content')"
  by (simp add: updateFinalCSV_def Let_def split: option.splits)

lemma processZipCode_Content:
  "processZipCode pg (Content content) zipcode state =
     (case trySearchTypes pg zipcode state SEARCH_TYPES of
        Some (finalAddress, finalCity) \<Rightarrow>
          updateFinalCSV (Content content) zipcode state finalAddress finalCity
      | None \<Rightarrow>
          updateFinalCSV (Content content) zipcode state (js ''Not Found'') (js ''Not Found''))"
proof (cases "trySearchTypes pg zipcode state SEARCH_TYPES")
  case None
  obtain c where "updateFinalCSV (Content content) zipcode state (js ''Not Found'')
      (js ''Not Found'') = Returns (Content c)"
    using updateFinalCSV_Content by blast
  with None show ?thesis by (simp add: processZipCode_def)
next
  case (Some result)
  obtain a b where r: "result = (a, b)" by (cases result)
  obtain c where "updateFinalCSV (Content content) zipcode state a b = Returns (Content c)"
    using updateFinalCSV_Content by blast
  with Some r show ?thesis by (simp add: processZipCode_def)
qed

lemma trySearchTypes_all_throw:
  "\<forall>searchType\<in>set searchTypes. \<exists>e. pg (searchUrl searchType zipcode state) = Throws e \<Longrightarrow>
   trySearchTypes pg zipcode state searchTypes = None"
  by (induction searchTypes) (auto simp: searchForLocationType_def)

text \<open>
  C1, as amended. A fault while a search is opened or its results are listed is caught in
  \<open>searchForLocationType\<close>, which returns \<^verbatim>\<open>null\<close>: the orchestrator goes on with the
  next search type. A fault while one result is processed is caught in the loop, which
  goes on with the next result. So a fault of the page never resolves the unit to
  \<^verbatim>\<open>Error\<close>: the table is updated with the address that was found or, when no search
  type gave one, also when every search faulted, with \<^verbatim>\<open>Not Found\<close>.
\<close>

theorem navigation_fault_absorbed:
  "(pg (searchUrl searchType zipcode state) = Throws e \<longrightarrow>
      searchForLocationType pg zipcode state searchType = None \<and>
      trySearchTypes pg zipcode state (searchType # searchTypes) =
        trySearchTypes pg zipcode state searchTypes) \<and>
   tryResults zipcode state (Throws e # searchResults) = tryResults zipcode state searchResults \<and>
   processZipCode pg (Content content) zipcode state =
     (case trySearchTypes pg zipcode state SEARCH_TYPES of
        Some (finalAddress, finalCity) \<Rightarrow>
          updateFinalCSV (Content content) zipcode state finalAddress finalCity
      | None \<Rightarrow>
          updateFinalCSV (Content content) zipcode state (js ''Not Found'') (js ''Not Found'')) \<and>
   ((\<forall>t\<in>set SEARCH_TYPES. \<exists>e'. pg (searchUrl t zipcode state) = Throws e') \<longrightarrow>
      processZipCode pg (Content content) zipcode state =
        updateFinalCSV (Content content) zipcode state (js ''Not Found'') (js ''Not Found''))"
proof (intro conjI impI)
  assume "pg (searchUrl searchType zipcode state) = Throws e"
  then show s: "searchForLocationType pg zipcode state searchType = None"
    by (simp add: searchForLocationType_def)
  then show "trySearchTypes pg zipcode state (searchType # searchTypes) =
      trySearchTypes pg zipcode state searchTypes"
    by simp
next
  show "tryResults zipcode state (Throws e # searchResults) =
      tryResults zipcode state searchResults"
    by simp
next
  show "processZipCode pg (Content content) zipcode state =
     (case trySearchTypes pg zipcode state SEARCH_TYPES of
        Some (finalAddress, finalCity) \<Rightarrow>
          updateFinalCSV (Content content) zipcode state finalAddress finalCity
      | None \<Rightarrow>
          updateFinalCSV (Content content) zipcode state (js ''Not Found'') (js ''Not Found''))"
    by (rule processZipCode_Content)
next
  assume "\<forall>t\<in>set SEARCH_TYPES. \<exists>e'. pg (searchUrl t zipcode state) = Throws e'"
  then have "trySearchTypes pg zipcode state SEARCH_TYPES = None"
    by (rule trySearchTypes_all_throw)
  then show "processZipCode pg (Content content) zipcode state =
      updateFinalCSV (Content content) zipcode state (js ''Not Found'') (js ''Not Found'')"
    by (simp add: processZipCode_Content)
qed

lemma scenario_update_notFound:
  "updateFinalCSV (Content scenarioTable) (js ''10001'') (js ''NY'') (js ''Not Found'')
     (js ''Not Found'') =
   Returns (Content (join 10 [js ''zipcode,state,address,city'',
     js ''10001,NY,\"Not Found\",\"Not Found\"'', js ''10002,NY,,'']))"
  unfolding scenarioTable_def
  by (simp add: store_defs js_def trim_def trimEnd_def is_space_def strip_quotes_def Let_def)

theorem navigation_fault_absorbed_witness:
  "processZipCode timeoutPage (Content scenarioTable) (js ''10001'') (js ''NY'') =
   Returns (Content (join 10 [js ''zipcode,state,address,city'',
     js ''10001,NY,\"Not Found\",\"Not Found\"'', js ''10002,NY,,'']))"
proof -
  have "\<forall>t\<in>set SEARCH_TYPES. \<exists>e'. timeoutPage (searchUrl t (js ''10001'') (js ''NY'')) = Throws e'"
    by (simp add: timeoutPage_def)
  with navigation_fault_absorbed [of timeoutPage _ "js ''10001''" "js ''NY''" _ _ _ scenarioTable]
  have "processZipCode timeoutPage (Content scenarioTable) (js ''10001'') (js ''NY'') =
      updateFinalCSV (Content scenarioTable) (js ''10001'') (js ''NY'') (js ''Not Found'')
        (js ''Not Found'')"
    by blast
  then show ?thesis by (simp only: scenario_update_notFound)
qed

lemma firstSearchFails_first:
  "firstSearchFails (searchUrl (js ''post office'') (js ''10001'') (js ''NY'')) =
     Throws (ErrorObject (js ''Timeout 30000ms exceeded''))"
  by (simp add: firstSearchFails_def)

lemma firstSearchFails_second:
  "firstSearchFails (searchUrl (js ''schools'') (js ''10001'') (js ''NY'')) =
     Returns [Returns (Some (js ''Address: 12 Main St, Albany, NY 10001, United States''))]"
  by (simp add: firstSearchFails_def searchUrl_def js_def)

lemma valid_example:
  "isValidAddressLine (Some (js ''12 Main St''))" "isValidCity (Some (js ''Albany''))"
  by (simp_all add: validator_defs regex_defs class_defs normalizer_defs)

lemma tryResults_example:
  "tryResults (js ''10001'') (js ''NY'')
     [Returns (Some (js ''Address: 12 Main St, Albany, NY 10001, United States''))] =
   Some (js ''12 Main St'', js ''Albany'')"
proof -
  have a: "trim (hd (split_on 44 (replace_str
      (js ''Address: 12 Main St, Albany, NY 10001, United States'') (js ''Address: '') []))) =
      js ''12 Main St''"
    by (simp add: js_def trim_def trimEnd_def is_space_def)
  have c: "map_option trim (at (split_on 44
      (js ''Address: 12 Main St, Albany, NY 10001, United States'')) 1) = Some (js ''Albany'')"
    by (simp add: js_def at_def trim_def trimEnd_def is_space_def)
  have s0: "thirdPart (js ''Address: 12 Main St, Albany, NY 10001, United States'') 0 =
      Some (js ''NY'')"
    by (simp add: thirdPart_def js_def at_def trim_def trimEnd_def is_space_def)
  have s1: "thirdPart (js ''Address: 12 Main St, Albany, NY 10001, United States'') 1 =
      Some (js ''10001'')"
    by (simp add: thirdPart_def js_def at_def trim_def trimEnd_def is_space_def)
  have ne: "(js ''Address: 12 Main St, Albany, NY 10001, United States'' = []) = False"
    by (simp add: js_def)
  show ?thesis
    by (simp only: tryResults.simps attempt.case option.case ne a c s0 s1 valid_example Let_def
        simp_thms if_True if_False)
qed

text \<open>
  C1 as stated fails: the search for the first search type times out, the orchestrator
  goes on to the second search type, and the unit resolves to the address found there,
  not to \<^verbatim>\<open>Error\<close>.
\<close>

theorem navigation_fault_advances:
  "firstSearchFails (searchUrl (hd SEARCH_TYPES) (js ''10001'') (js ''NY'')) =
     Throws (ErrorObject (js ''Timeout 30000ms exceeded'')) \<and>
   processZipCode firstSearchFails (Content scenarioTable) (js ''10001'') (js ''NY'') =
     Returns (Content (join 10 [js ''zipcode,state,address,city'',
       js ''10001,NY,\"12 Main St\",\"Albany\"'', js ''10002,NY,,'']))"
proof -
  have "trySearchTypes firstSearchFails (js ''10001'') (js ''NY'') SEARCH_TYPES =
      Some (js ''12 Main St'', js ''Albany'')"
    by (simp only: SEARCH_TYPES_def trySearchTypes.simps searchForLocationType_def
        firstSearchFails_first firstSearchFails_second attempt.case tryResults_example
        option.case)
  moreover have "updateFinalCSV (Content scenarioTable) (js ''10001'') (js ''NY'') (js ''12 Main St'')
      (js ''Albany'') =
      Returns (Content (join 10 [js ''zipcode,state,address,city'',
        js ''10001,NY,\"12 Main St\",\"Albany\"'', js ''10002,NY,,'']))"
    unfolding scenarioTable_def
    by (simp add: store_defs js_def trim_def trimEnd_def is_space_def strip_quotes_def Let_def)
  ultimately have "processZipCode firstSearchFails (Content scenarioTable) (js ''10001'') (js ''NY'') =
      Returns (Content (join 10 [js ''zipcode,state,address,city'',
        js ''10001,NY,\"12 Main St\",\"Albany\"'', js ''10002,NY,,'']))"
    by (simp only: processZipCode_Content option.case prod.case)
  moreover have "hd SEARCH_TYPES = js ''post office''" by (simp add: SEARCH_TYPES_def)
  ultimately show ?thesis by (simp only: firstSearchFails_first simp_thms)
qed

section \<open>Properties of the address extractor and of the outer retry wrapper\<close>











section \<open>Properties of the output files\<close>






end
